theory Spec2Isabelle
  imports Complex_Main "HOL-Library.Multiset"
begin

section \<open>A trivia bot: matching answers and running a round\<close>

text \<open>
  The theory embeds \<open>main.py\<close>: the class \<open>AnswerMatcher\<close> (normalization of a text, its
  key words, the cascade of \<open>is_match\<close>) and, of the class \<open>TriviaBot\<close>, the points, the
  statistics of the players, the report of the top matching answers and the monitoring of
  the comments on a question.

  \<^item> A Python \<open>str\<close> is a \<open>string\<close>, one \<open>char\<close> for each code point, so the model covers
    the texts whose code points are below 256.
  \<^item> Python's unbounded integers are \<open>int\<close>. A \<open>float\<close> that holds a number of seconds or
    a confidence is a \<open>real\<close>: the source only subtracts, divides and compares them, and
    rounding is not modelled.
  \<^item> A \<open>datetime\<close> is the number of seconds on the clock, a \<open>real\<close>; what
    \<open>datetime.now()\<close> returns is an argument of the function that reads it.
  \<^item> The state of the bot is a record that each function takes and returns. A call to
    Reddit may raise, and which random replies are drawn is open: both come with the
    comment that the bot handles. Saving to the database catches its own failures and does
    not change the state; it is left out, as are the texts of the replies.
\<close>

section \<open>Text and the standard library\<close>

text \<open>
  The character tests and the case mapping are those of Python on the code points below
  256: \<open>str.isspace\<close> (which \<open>str.strip()\<close>, \<open>str.split()\<close> and the pattern \<open>\s\<close> all
  use), the pattern \<open>\w\<close> and \<open>str.lower\<close>.
\<close>

definition isspace :: "char \<Rightarrow> bool" where
  "isspace c = (let n = (of_char c :: nat) in
     (9 \<le> n \<and> n \<le> 13) \<or> (28 \<le> n \<and> n \<le> 32) \<or> n = 133 \<or> n = 160)"

definition isword :: "char \<Rightarrow> bool" where
  "isword c = (let n = (of_char c :: nat) in
     (48 \<le> n \<and> n \<le> 57) \<or> (65 \<le> n \<and> n \<le> 90) \<or> n = 95 \<or> (97 \<le> n \<and> n \<le> 122)
     \<or> n = 170 \<or> n = 178 \<or> n = 179 \<or> n = 181 \<or> n = 185 \<or> n = 186
     \<or> (188 \<le> n \<and> n \<le> 190) \<or> (192 \<le> n \<and> n \<le> 214) \<or> (216 \<le> n \<and> n \<le> 246)
     \<or> 248 \<le> n)"

definition lower_char :: "char \<Rightarrow> char" where
  "lower_char c = (let n = (of_char c :: nat) in
     if (65 \<le> n \<and> n \<le> 90) \<or> (192 \<le> n \<and> n \<le> 214) \<or> (216 \<le> n \<and> n \<le> 222)
     then char_of (n + 32) else c)"

definition lower :: "string \<Rightarrow> string" where
  "lower text = map lower_char text"

text \<open>\<open>text.strip()\<close> and \<open>text.strip(chars)\<close>.\<close>

definition strip :: "string \<Rightarrow> string" where
  "strip text = rev (dropWhile isspace (rev (dropWhile isspace text)))"

definition strip_chars :: "string \<Rightarrow> string \<Rightarrow> string" where
  "strip_chars chars text =
     rev (dropWhile (\<lambda>c. c \<in> set chars) (rev (dropWhile (\<lambda>c. c \<in> set chars) text)))"

text \<open>
  \<open>text.split()\<close>: the maximal runs of characters that are not white space. The second
  argument holds the current run, last character first.
\<close>

fun split_run :: "string \<Rightarrow> string \<Rightarrow> string list" where
  "split_run [] run = (if run = [] then [] else [rev run])"
| "split_run (c # cs) run =
     (if isspace c then (if run = [] then split_run cs [] else rev run # split_run cs [])
      else split_run cs (c # run))"

definition split :: "string \<Rightarrow> string list" where
  "split text = split_run text []"

text \<open>\<open>sep.join(words)\<close>.\<close>

fun join :: "string \<Rightarrow> string list \<Rightarrow> string" where
  "join sep [] = []"
| "join sep [w] = w"
| "join sep (w # v # ws) = w @ sep @ join sep (v # ws)"

text \<open>
  \<open>text.replace(old, new)\<close> for a non-empty \<open>old\<close>: the occurrences are found from the
  left and do not overlap.
\<close>

function replace :: "string \<Rightarrow> string \<Rightarrow> string \<Rightarrow> string" where
  "replace old new [] = []"
| "replace old new (c # cs) =
     (if old \<noteq> [] \<and> take (length old) (c # cs) = old
      then new @ replace old new (drop (length old) (c # cs))
      else c # replace old new cs)"
  by pat_completeness auto
termination
  by (relation "measure (\<lambda>(old, new, text). length text)") (auto simp: neq_Nil_conv)

text \<open>\<open>needle in text\<close> on strings.\<close>

fun str_in :: "string \<Rightarrow> string \<Rightarrow> bool" where
  "str_in needle [] = (needle = [])"
| "str_in needle (c # cs) = (take (length needle) (c # cs) = needle \<or> str_in needle cs)"

text \<open>
  The three substitutions by regular expression: \<open>re.sub(r'[^\w\s\.\-\']', ' ', text)\<close>,
  \<open>re.sub(r'\s+', ' ', text)\<close>, where the flag says that the character before was white
  space, and \<open>re.sub(r'[\s\.]', '', text)\<close>.
\<close>

definition sub_punctuation :: "string \<Rightarrow> string" where
  "sub_punctuation text =
     map (\<lambda>c. if isword c \<or> isspace c \<or> c = CHR ''.'' \<or> c = CHR ''-'' \<or> c = CHR 0x27
              then c else CHR '' '') text"

fun sub_spaces_from :: "bool \<Rightarrow> string \<Rightarrow> string" where
  "sub_spaces_from after_space [] = []"
| "sub_spaces_from after_space (c # cs) =
     (if isspace c then
        (if after_space then sub_spaces_from True cs else CHR '' '' # sub_spaces_from True cs)
      else c # sub_spaces_from False cs)"

definition sub_spaces :: "string \<Rightarrow> string" where
  "sub_spaces text = sub_spaces_from False text"

definition sub_dots_and_spaces :: "string \<Rightarrow> string" where
  "sub_dots_and_spaces text = filter (\<lambda>c. \<not> (isspace c \<or> c = CHR ''.'')) text"

text \<open>
  Four functions of the standard library are not defined here but are parameters of the
  model: \<open>html.unescape\<close> (its table of named entities has more than two thousand
  entries), \<open>unicodedata.normalize('NFKD', _)\<close> and \<open>unicodedata.combining\<close> (the Unicode
  character database), and \<open>difflib.SequenceMatcher(None, a, b).ratio()\<close>. Every theorem
  below that mentions a library \<open>L\<close> holds for whatever these four compute.
\<close>

record pylib =
  html_unescape :: "string \<Rightarrow> string"
  nfkd :: "string \<Rightarrow> string"
  combining :: "char \<Rightarrow> bool"
  ratio :: "string \<Rightarrow> string \<Rightarrow> real"

subsection \<open>The library on plain text\<close>

text \<open>
  To evaluate the model on a concrete text the four parameters need values. On a text of
  ASCII characters without an ampersand, \<open>html.unescape\<close> and the NFKD form return the text
  as it is and no character is a combining one. \<open>SequenceMatcher(None, a, b).ratio()\<close> is
  twice the number of characters in the matching blocks over the sum of the two lengths. A
  matching block is the longest common block (the first one in \<open>a\<close>, then in \<open>b\<close>, among
  equals) that avoids the popular characters of \<open>b\<close>, grown at both ends; the blocks left
  and right of it are looked for in the same way. The arguments \<open>a\<close> and \<open>b\<close> of the search
  are the slices \<open>a[alo:ahi]\<close> and \<open>b[blo:bhi]\<close>, and the positions returned count from the
  start of the slices. In \<open>matching_size\<close> the test that the block ends beyond \<open>a\<close> is not
  in the library: it never holds (lemma \<open>matching_size_unfold\<close>) and lets the recursion be
  accepted before that is proved.
\<close>

definition popular :: "string \<Rightarrow> char set" where
  "popular b =
     (if 200 \<le> length b
      then Set.filter (\<lambda>elt. length b div 100 + 1 < count_list b elt) (set b)
      else {})"

definition run_length :: "char set \<Rightarrow> string \<Rightarrow> string \<Rightarrow> nat \<Rightarrow> nat \<Rightarrow> nat" where
  "run_length pop a b i j =
     length (takeWhile (\<lambda>(x, y). x = y \<and> y \<notin> pop)
               (zip (rev (take (Suc i) a)) (rev (take (Suc j) b))))"

definition common_prefix :: "string \<Rightarrow> string \<Rightarrow> nat" where
  "common_prefix a b = length (takeWhile (\<lambda>(x, y). x = y) (zip a b))"

definition find_longest_match :: "char set \<Rightarrow> string \<Rightarrow> string \<Rightarrow> nat \<times> nat \<times> nat" where
  "find_longest_match pop a b =
     (let (besti, bestj, bestsize) =
            foldl (\<lambda>(besti, bestj, bestsize) (i, j).
                     let k = run_length pop a b i j in
                     if bestsize < k then (Suc i - k, Suc j - k, k)
                     else (besti, bestj, bestsize))
              (0, 0, 0) (List.product [0..<length a] [0..<length b]);
          back = common_prefix (rev (take besti a)) (rev (take bestj b));
          besti = besti - back;
          bestj = bestj - back;
          bestsize = bestsize + back;
          forth = common_prefix (drop (besti + bestsize) a) (drop (bestj + bestsize) b)
      in (besti, bestj, bestsize + forth))"

function matching_size :: "char set \<Rightarrow> string \<Rightarrow> string \<Rightarrow> nat" where
  "matching_size pop a b =
     (let (i, j, k) = find_longest_match pop a b in
      if k = 0 \<or> length a < i + k then 0
      else k
        + (if 0 < i \<and> 0 < j then matching_size pop (take i a) (take j b) else 0)
        + (if i + k < length a \<and> j + k < length b
           then matching_size pop (drop (i + k) a) (drop (j + k) b) else 0))"
  by pat_completeness auto
termination
  by (relation "measure (\<lambda>(pop, a, b). length a)") auto

declare matching_size.simps [simp del]

definition sequence_matcher_ratio :: "string \<Rightarrow> string \<Rightarrow> real" where
  "sequence_matcher_ratio a b =
     (let matches = matching_size (popular b) a b;
          length = length a + length b
      in if length \<noteq> 0 then 2 * real matches / real length else 1)"

definition plain_lib :: pylib where
  "plain_lib =
     \<lparr>html_unescape = (\<lambda>text. text), nfkd = (\<lambda>text. text), combining = (\<lambda>c. False),
      ratio = sequence_matcher_ratio\<rparr>"

section \<open>The answer matcher\<close>

text \<open>The dictionaries of \<open>AnswerMatcher.__init__\<close>, in the order of the source.\<close>

definition abbreviations :: "(string \<times> string) list" where
  "abbreviations =
    [(''usa'', ''united states of america''),
     (''us'', ''united states''),
     (''uk'', ''united kingdom''),
     (''ussr'', ''soviet union''),
     (''wwi'', ''world war 1''),
     (''ww1'', ''world war 1''),
     (''wwii'', ''world war 2''),
     (''ww2'', ''world war 2''),
     (''nyc'', ''new york city''),
     (''la'', ''los angeles''),
     (''sf'', ''san francisco''),
     (''dc'', ''washington dc''),
     (''ca'', ''california''),
     (''ny'', ''new york''),
     (''jr'', ''junior''),
     (''sr'', ''senior''),
     (''dr'', ''doctor''),
     (''mr'', ''mister''),
     (''mrs'', ''missus''),
     (''ms'', ''miss''),
     (''prof'', ''professor''),
     (''st'', ''saint''),
     (''mt'', ''mount''),
     (''ft'', ''fort''),
     (''co'', ''company''),
     (''corp'', ''corporation''),
     (''inc'', ''incorporated''),
     (''ltd'', ''limited''),
     (''etc'', ''et cetera''),
     (''vs'', ''versus''),
     (''aka'', ''also known as'')]"

definition roman_numerals :: "(string \<times> string) list" where
  "roman_numerals =
    [(''i'', ''1''), (''ii'', ''2''), (''iii'', ''3''), (''iv'', ''4''), (''v'', ''5''),
     (''vi'', ''6''), (''vii'', ''7''), (''viii'', ''8''), (''ix'', ''9''), (''x'', ''10''),
     (''xi'', ''11''), (''xii'', ''12''), (''xiii'', ''13''), (''xiv'', ''14''), (''xv'', ''15''),
     (''xvi'', ''16''), (''xvii'', ''17''), (''xviii'', ''18''), (''xix'', ''19''), (''xx'', ''20'')]"

definition stop_words :: "string set" where
  "stop_words = set
    [''the'', ''a'', ''an'', ''and'', ''or'', ''but'', ''in'', ''on'', ''at'', ''to'', ''for'',
     ''of'', ''with'', ''by'', ''as'', ''is'', ''was'', ''are'', ''were'', ''be'', ''been'',
     ''being'', ''have'', ''has'', ''had'', ''do'', ''does'', ''did'', ''will'', ''would'',
     ''could'', ''should'', ''may'', ''might'', ''must'', ''can'', ''shall'']"

text \<open>
  The symbols replaced by \<open>normalize_text\<close>, in the order of the source's dictionary. After
  the dollar comes the euro sign in the source; its code point is above 255, so it occurs in
  no text of the model and has no entry here. The keys written as numbers are the pound sign,
  the yen sign, the degree sign, the fractions one half, one quarter and three quarters, and
  the superscripts two and three.
\<close>

definition replacements :: "(string \<times> string) list" where
  "replacements =
    [(''&'', ''and''),
     (''+'', ''plus''),
     (''%'', ''percent''),
     (''$'', ''dollar''),
     ([CHR 0xA3], ''pound''),
     ([CHR 0xA5], ''yen''),
     (''@'', ''at''),
     (''#'', ''number''),
     ([CHR 0xB0], ''degree''),
     ([CHR 0xBD], ''0.5''),
     ([CHR 0xBC], ''0.25''),
     ([CHR 0xBE], ''0.75''),
     ([CHR 0xB2], ''2''),
     ([CHR 0xB3], ''3'')]"

text \<open>The characters of \<open>word.strip('.,!?;:"()[]{}')\<close>.\<close>

definition punctuation :: string where
  "punctuation = ''.,!?;:'' @ [CHR 0x22] @ ''()[]{}''"

text \<open>
  The two loops of \<open>normalize_text\<close>: the one over the symbols, which replaces one after
  the other in the text, and the body of the one over the words.
\<close>

definition replace_all :: "(string \<times> string) list \<Rightarrow> string \<Rightarrow> string" where
  "replace_all kvs text =
     foldl (\<lambda>text (symbol, replacement). replace symbol replacement text) text kvs"

definition normalize_word :: "string \<Rightarrow> string" where
  "normalize_word word =
     (let clean_word = strip_chars punctuation word in
      case map_of abbreviations clean_word of
        Some full \<Rightarrow> full
      | None \<Rightarrow>
          (case map_of roman_numerals clean_word of
             Some number \<Rightarrow> number
           | None \<Rightarrow> word))"

definition normalize_text :: "pylib \<Rightarrow> string \<Rightarrow> string" where
  "normalize_text L text =
     (if text = [] then []
      else
        let text = strip (lower text);
            text = html_unescape L text;
            text = nfkd L text;
            text = filter (\<lambda>c. \<not> combining L c) text;
            text = replace_all replacements text;
            text = sub_punctuation text;
            words = split text;
            normalized_words = map normalize_word words;
            text = join '' '' normalized_words;
            text = strip (sub_spaces text)
        in text)"

definition extract_key_words :: "pylib \<Rightarrow> string \<Rightarrow> string set" where
  "extract_key_words L text =
     (let normalized = normalize_text L text;
          words = split normalized
      in set (filter (\<lambda>clean_word. 1 < length clean_word \<and> clean_word \<notin> stop_words)
                (map (strip_chars punctuation) words)))"

definition similarity_score :: "pylib \<Rightarrow> string \<Rightarrow> string \<Rightarrow> real" where
  "similarity_score L str1 str2 = ratio L str1 str2"

definition check_name_variations :: "pylib \<Rightarrow> string \<Rightarrow> string \<Rightarrow> bool" where
  "check_name_variations L user_answer correct_answer =
     (let user_words = split (normalize_text L user_answer);
          correct_words = split (normalize_text L correct_answer)
      in if 2 \<le> length user_words \<and> 2 \<le> length correct_words then
           (let user_first = hd user_words;
                user_last = last user_words;
                correct_first = hd correct_words;
                correct_last = last correct_words
            in 8 / 10 < similarity_score L user_first correct_first
               \<and> 8 / 10 < similarity_score L user_last correct_last)
         else False)"

definition remove_dots_and_spaces :: "string \<Rightarrow> string" where
  "remove_dots_and_spaces text = sub_dots_and_spaces (lower text)"

text \<open>
  \<open>is_match\<close> returns the triple \<open>(is_match, confidence_score, match_type)\<close>. Each \<open>return\<close>
  of the source is one branch here, in the same order. The sets of key words are Python
  sets; the list \<open>essential_words\<close> is built from a set, and only its length and the number
  of its members in \<open>user_words\<close> are used, so it is a set here.
\<close>

definition is_match :: "pylib \<Rightarrow> string \<Rightarrow> string \<Rightarrow> real \<Rightarrow> bool \<times> real \<times> string" where
  "is_match L user_answer correct_answer threshold =
     (if user_answer = [] \<or> correct_answer = [] then (False, 0, ''empty'')
      else
        let user_norm = normalize_text L user_answer;
            correct_norm = normalize_text L correct_answer
        in
        if user_norm = correct_norm then (True, 1, ''exact'')
        else if str_in user_norm correct_norm \<or> str_in correct_norm user_norm
        then (True, 95 / 100, ''contains'')
        else
          let user_words = extract_key_words L user_answer;
              correct_words = extract_key_words L correct_answer;
              intersection = user_words \<inter> correct_words;
              union = user_words \<union> correct_words;
              word_similarity = real (card intersection) / real (card union)
          in
          if user_words \<noteq> {} \<and> correct_words \<noteq> {} \<and> union \<noteq> {} \<and> 7 / 10 \<le> word_similarity
          then (True, word_similarity, ''keywords'')
          else
            let similarity = similarity_score L user_norm correct_norm in
            if threshold \<le> similarity then (True, similarity, ''fuzzy'')
            else
              let essential_words = Set.filter (\<lambda>w. 3 < length w) correct_words;
                  matched_essential = card (Set.filter (\<lambda>word. word \<in> user_words) essential_words);
                  essential_ratio = real matched_essential / real (card essential_words)
              in
              if 1 < card correct_words \<and> essential_words \<noteq> {} \<and> 8 / 10 \<le> essential_ratio
              then (True, essential_ratio, ''essential'')
              else
                let user_compact = remove_dots_and_spaces user_answer;
                    correct_compact = remove_dots_and_spaces correct_answer
                in
                if user_compact = correct_compact then (True, 9 / 10, ''initials'')
                else if check_name_variations L user_answer correct_answer
                then (True, 85 / 100, ''name_variation'')
                else (False, similarity, ''no_match''))"

subsection \<open>Notions for the proofs about normal forms\<close>

text \<open>
  A token is a word as \<open>split\<close> returns it. The characters that \<open>sub_punctuation\<close> keeps
  are the allowed ones. The symbol characters are the keys of \<open>replacements\<close>, the
  expansions are the values of the two dictionaries of words, and the stock characters are
  those that \<open>normalize_text\<close> may insert. A settled token is one that a second
  normalization leaves alone, unless it is the word dc, whose expansion contains it.
\<close>

definition token :: "string \<Rightarrow> bool" where
  "token w = (w \<noteq> [] \<and> (\<forall>c \<in> set w. \<not> isspace c))"

definition allowed :: "char \<Rightarrow> bool" where
  "allowed c = (isword c \<or> isspace c \<or> c = CHR ''.'' \<or> c = CHR ''-'' \<or> c = CHR 0x27)"

definition symbol_chars :: "char set" where
  "symbol_chars = set (concat (map fst replacements))"

definition expansions :: "string list" where
  "expansions = map snd abbreviations @ map snd roman_numerals"

definition settled :: "string \<Rightarrow> bool" where
  "settled tok = (token tok \<and> (\<forall>c \<in> set tok. allowed c \<and> c \<notin> symbol_chars)
                  \<and> (tok \<noteq> ''dc'' \<longrightarrow> normalize_word tok = tok))"

definition stock_chars :: "char set" where
  "stock_chars = set (concat (map snd replacements)) \<union> set (concat expansions) \<union> {CHR '' ''}"

text \<open>
  Plain text is ASCII text without an ampersand. What the library is known to do on it:
  \<open>html.unescape\<close> returns a text without an ampersand as it is, the NFKD form of an ASCII
  text is the text, and no ASCII character is a combining one. A plain character is,
  moreover, its own lower case.
\<close>

definition ascii :: "char \<Rightarrow> bool" where
  "ascii c = ((of_char c :: nat) < 128)"

definition plain_text_laws :: "pylib \<Rightarrow> bool" where
  "plain_text_laws L =
     ((\<forall>s. CHR ''&'' \<notin> set s \<longrightarrow> html_unescape L s = s)
      \<and> (\<forall>s. (\<forall>c \<in> set s. ascii c) \<longrightarrow> nfkd L s = s)
      \<and> (\<forall>c. ascii c \<longrightarrow> \<not> combining L c))"

definition plain_char :: "char \<Rightarrow> bool" where
  "plain_char c = (ascii c \<and> lower_char c = c \<and> c \<noteq> CHR ''&'')"

section \<open>Rewards and player statistics\<close>

record UserStats =
  username :: string
  total_score :: int
  correct_answers :: int
  total_questions :: int
  streak :: int
  max_streak :: int
  last_active :: "real option"
  daily_score :: int
  weekly_score :: int
  monthly_score :: int

text \<open>The constructor call \<open>UserStats(username=username, last_active=datetime.now())\<close>.\<close>

definition new_user :: "string \<Rightarrow> real \<Rightarrow> UserStats" where
  "new_user name now =
     \<lparr>username = name, total_score = 0, correct_answers = 0, total_questions = 0,
      streak = 0, max_streak = 0, last_active = Some now,
      daily_score = 0, weekly_score = 0, monthly_score = 0\<rparr>"

definition calculate_points :: "real \<Rightarrow> int" where
  "calculate_points response_time =
     (let base_points = 10 in
      if response_time < 5 then base_points + 10
      else if response_time < 10 then base_points + 7
      else if response_time < 20 then base_points + 5
      else if response_time < 35 then base_points + 3
      else base_points + 1)"

text \<open>
  The body of \<open>update_user_stats\<close> once the player's record is at hand. Saving the record
  to the database has no effect on the bot's state (its failures are caught and logged) and
  is left out.
\<close>

definition update_stats :: "UserStats \<Rightarrow> bool \<Rightarrow> real \<Rightarrow> real \<Rightarrow> UserStats" where
  "update_stats user correct response_time now =
     (let user = user\<lparr>total_questions := total_questions user + 1\<rparr>;
          user = user\<lparr>last_active := Some now\<rparr>
      in if correct then
           (let points = calculate_points response_time;
                user = user\<lparr>total_score := total_score user + points\<rparr>;
                user = user\<lparr>correct_answers := correct_answers user + 1\<rparr>;
                user = user\<lparr>streak := streak user + 1\<rparr>;
                user = user\<lparr>max_streak := max (max_streak user) (streak user)\<rparr>;
                user = user\<lparr>daily_score := daily_score user + points\<rparr>;
                user = user\<lparr>weekly_score := weekly_score user + points\<rparr>;
                user = user\<lparr>monthly_score := monthly_score user + points\<rparr>
            in user)
         else user\<lparr>streak := 0\<rparr>)"

text \<open>
  \<open>self.user_stats\<close> is a dictionary from user names to records. A name that is not a key
  gets a new record first.
\<close>

type_synonym stats_table = "string \<rightharpoonup> UserStats"

definition update_user_stats :: "stats_table \<Rightarrow> string \<Rightarrow> bool \<Rightarrow> real \<Rightarrow> real \<Rightarrow> stats_table" where
  "update_user_stats tab name correct response_time now =
     (let tab = (if name \<notin> dom tab then tab(name \<mapsto> new_user name now) else tab)
      in case tab name of
           None \<Rightarrow> tab
         | Some user \<Rightarrow> tab(name \<mapsto> update_stats user correct response_time now))"

text \<open>
  A sequence of updates, each with the player's name, whether the answer was correct, the
  response time and the clock.
\<close>

fun update_all :: "stats_table \<Rightarrow> (string \<times> bool \<times> real \<times> real) list \<Rightarrow> stats_table" where
  "update_all tab [] = tab"
| "update_all tab ((name, correct, response_time, now) # ups) =
     update_all (update_user_stats tab name correct response_time now) ups"

text \<open>The streak counters of a player; a player without a record has both at 0.\<close>

definition streak_of :: "stats_table \<Rightarrow> string \<Rightarrow> int" where
  "streak_of tab name = (case tab name of None \<Rightarrow> 0 | Some user \<Rightarrow> streak user)"

definition max_streak_of :: "stats_table \<Rightarrow> string \<Rightarrow> int" where
  "max_streak_of tab name = (case tab name of None \<Rightarrow> 0 | Some user \<Rightarrow> max_streak user)"

section \<open>The trivia bot\<close>

text \<open>
  An entry of \<open>self.question_answers\<close>, and an entry of \<open>answer_scores\<close> in
  \<open>get_top_matching_answers\<close>.
\<close>

record answer_data =
  ans_username :: string
  ans_answer :: string
  ans_response_time :: real

record answer_score =
  sc_username :: string
  sc_answer :: string
  sc_confidence :: real
  sc_match_type :: string
  sc_is_correct :: bool

text \<open>
  A call to Reddit returns or raises. A comment as the bot reads it from the post comes with
  what its handling in the loop of \<open>monitor_comments\<close> meets: \<open>seen_at\<close> is what
  \<open>datetime.now()\<close> gives then; \<open>me_call\<close> is the outcome of \<open>self.reddit.user.me()\<close>, made
  when the comment has an author; \<open>celebration_reply\<close> is the outcome of the
  \<open>comment.reply\<close> that celebrates the comment if it wins. The two replies to a wrong
  answer are sent when random numbers say so: \<open>feedback_reply\<close> and
  \<open>encouragement_reply\<close> are \<open>None\<close> when the draw says no, and the outcome of
  \<open>comment.reply\<close> when it says yes.
\<close>

datatype reddit_call = Returns | Raises

record comment =
  comment_id :: string
  author :: "string option"
  body :: string
  seen_at :: real
  me_call :: reddit_call
  feedback_reply :: "reddit_call option"
  encouragement_reply :: "reddit_call option"
  celebration_reply :: reddit_call

text \<open>
  The state of the bot. \<open>current_question\<close> is the post, known by its id. \<open>current_answer\<close>
  is \<open>None\<close> before the first question; the only test made on it is \<open>not correct_answer\<close>,
  which \<open>None\<close> and the empty string pass alike, so \<open>None\<close> is the empty string here.
\<close>

record bot =
  current_question :: "string option"
  current_answer :: string
  question_start_time :: "real option"
  waiting_for_answer :: bool
  user_stats :: stats_table
  processed_comments :: "string set"
  question_answers :: "answer_data list"

definition new_bot :: bot where
  "new_bot =
     \<lparr>current_question = None, current_answer = [], question_start_time = None,
      waiting_for_answer = False, user_stats = Map.empty, processed_comments = {},
      question_answers = []\<rparr>"

text \<open>
  What \<open>post_question\<close> stores once the question has been fetched and posted: the post, the
  correct answer and the clock.
\<close>

definition post_question :: "bot \<Rightarrow> string \<Rightarrow> string \<Rightarrow> real \<Rightarrow> bot" where
  "post_question st submission correct_answer now =
     st\<lparr>current_question := Some submission,
        current_answer := correct_answer,
        question_start_time := Some now,
        waiting_for_answer := True,
        question_answers := []\<rparr>"

definition is_correct_answer :: "pylib \<Rightarrow> string \<Rightarrow> string \<Rightarrow> bool \<times> real \<times> string" where
  "is_correct_answer L user_answer correct_answer = is_match L user_answer correct_answer (8 / 10)"

text \<open>
  A list sorted with \<open>sort(key=..., reverse=True)\<close>: Python reverses the list, sorts it
  with its stable sort and reverses it again. \<open>xs[:n]\<close> is the slice up to \<open>n\<close>, counted
  from the end when \<open>n\<close> is negative.
\<close>

definition sort_reverse :: "('a \<Rightarrow> real) \<Rightarrow> 'a list \<Rightarrow> 'a list" where
  "sort_reverse key_of xs = rev (sort_key key_of (rev xs))"

definition slice_to :: "int \<Rightarrow> 'a list \<Rightarrow> 'a list" where
  "slice_to n xs = (if 0 \<le> n then take (nat n) xs else take (length xs - nat (- n)) xs)"

text \<open>
  The two loops of \<open>get_top_matching_answers\<close>: the one that fills \<open>top_matches\<close>, and
  the body of the one that scores the stored answers.
\<close>

fun collect_top :: "int \<Rightarrow> answer_score list \<Rightarrow> answer_score list \<Rightarrow> answer_score list" where
  "collect_top limit [] top_matches = top_matches"
| "collect_top limit (score_data # rest) top_matches =
     (if limit \<le> int (length top_matches) then top_matches
      else if 3 / 10 < sc_confidence score_data
      then collect_top limit rest (top_matches @ [score_data])
      else collect_top limit rest top_matches)"

text \<open>
  \<open>get_top_matching_answers\<close> up to the list \<open>top_matches\<close>. The text that the source
  returns lists these entries in this order, one line each, and is empty when the list is.
\<close>

definition score_answer :: "pylib \<Rightarrow> string \<Rightarrow> answer_data \<Rightarrow> answer_score" where
  "score_answer L correct_answer answer_data =
     (let (is_match, confidence, match_type) =
            is_match L (ans_answer answer_data) correct_answer (8 / 10)
      in \<lparr>sc_username = ans_username answer_data,
          sc_answer = ans_answer answer_data,
          sc_confidence = confidence,
          sc_match_type = match_type,
          sc_is_correct = is_match\<rparr>)"

definition get_top_matching_answers :: "pylib \<Rightarrow> answer_data list \<Rightarrow> string \<Rightarrow> int \<Rightarrow> answer_score list" where
  "get_top_matching_answers L answers correct_answer limit =
     (if answers = [] then []
      else
        let answer_scores = map (score_answer L correct_answer) answers;
            answer_scores = sort_reverse sc_confidence answer_scores
        in collect_top limit (slice_to (limit + 2) answer_scores) [])"

text \<open>
  The reply that celebrates the winner, by its parts: the comment replied to, the winner,
  the answer, the verdict, the points, the response time, the streak and the top matching
  answers. The line that \<open>get_ai_response\<close> may add is drawn at random and is left out.
\<close>

record celebration =
  cel_comment :: string
  cel_winner :: string
  cel_answer :: string
  cel_correct_answer :: string
  cel_match_type :: string
  cel_confidence :: real
  cel_points :: int
  cel_response_time :: real
  cel_streak :: int
  cel_top_matches :: "answer_score list"

text \<open>
  The loop of \<open>monitor_comments\<close> over the comments of the post, with \<open>me\<close> the bot's own
  user name. It returns the state and the celebration, if one was delivered. The loop runs
  inside \<open>try\<close>: whatever raises ends the call with the state as it is at that point.
  That is so for the call \<open>self.reddit.user.me()\<close>, for reading the clock against a start
  time that is \<open>None\<close>, and for each \<open>comment.reply\<close>. The celebration is sent after the
  statistics of the winner are updated and before \<open>waiting_for_answer\<close> is set to
  \<open>False\<close>; the feedback to a close answer is sent before the statistics are updated, the
  encouragement after.
\<close>

definition author_name :: "comment \<Rightarrow> string" where
  "author_name c = (case author c of Some name \<Rightarrow> name | None \<Rightarrow> ''Anonymous'')"

fun monitor_loop :: "pylib \<Rightarrow> string \<Rightarrow> comment list \<Rightarrow> bot \<Rightarrow> bot \<times> celebration option" where
  "monitor_loop L me [] st = (st, None)"
| "monitor_loop L me (c # cs) st =
     (if comment_id c \<in> processed_comments st then monitor_loop L me cs st
      else
        let st = st\<lparr>processed_comments := insert (comment_id c) (processed_comments st)\<rparr> in
        if author c \<noteq> None \<and> me_call c = Raises then (st, None)
        else if author c = Some me then monitor_loop L me cs st
        else
          let uname = author_name c in
          case question_start_time st of
            None \<Rightarrow> (st, None)
          | Some start \<Rightarrow>
              let response_time = seen_at c - start;
                  st = st\<lparr>question_answers := question_answers st @
                          [\<lparr>ans_username = uname, ans_answer = body c,
                            ans_response_time = response_time\<rparr>]\<rparr>;
                  (is_correct, confidence, match_type) =
                    is_correct_answer L (body c) (current_answer st)
              in
              if is_correct then
                let st = st\<lparr>user_stats :=
                            update_user_stats (user_stats st) uname True response_time (seen_at c)\<rparr>;
                    points = calculate_points response_time;
                    top_matches = get_top_matching_answers L (question_answers st) (current_answer st) 3;
                    reply = \<lparr>cel_comment = comment_id c, cel_winner = uname,
                             cel_answer = strip (body c), cel_correct_answer = current_answer st,
                             cel_match_type = match_type, cel_confidence = confidence,
                             cel_points = points, cel_response_time = response_time,
                             cel_streak = streak_of (user_stats st) uname,
                             cel_top_matches = top_matches\<rparr>
                in
                if celebration_reply c = Raises then (st, None)
                else
                  let st = st\<lparr>waiting_for_answer := False\<rparr>
                  in (st, Some reply)
              else
                if 6 / 10 < confidence \<and> feedback_reply c = Some Raises then (st, None)
                else
                  let st = st\<lparr>user_stats :=
                              update_user_stats (user_stats st) uname False response_time (seen_at c)\<rparr>
                  in
                  if encouragement_reply c = Some Raises then (st, None)
                  else monitor_loop L me cs st)"

text \<open>
  \<open>monitor_comments\<close> from the point where the comments of the post have been fetched. When
  fetching raises, the call ends with the state as it was.
\<close>

definition monitor_comments :: "pylib \<Rightarrow> string \<Rightarrow> comment list \<Rightarrow> bot \<Rightarrow> bot \<times> celebration option" where
  "monitor_comments L me comments st =
     (if current_question st = None \<or> \<not> waiting_for_answer st then (st, None)
      else monitor_loop L me comments st)"

text \<open>
  Two notions for the results on the loop. The calls of a comment return when none of the
  calls to Reddit that its handling may make raises. The submissions of a fetch are the
  comments that the loop classifies: those not processed before and not the bot's own (the
  ids of the comments of one fetch differ).
\<close>

definition calls_return :: "comment \<Rightarrow> bool" where
  "calls_return c =
     (me_call c = Returns \<and> feedback_reply c \<noteq> Some Raises
      \<and> encouragement_reply c \<noteq> Some Raises \<and> celebration_reply c = Returns)"

definition submissions :: "string \<Rightarrow> string set \<Rightarrow> comment list \<Rightarrow> comment list" where
  "submissions me seen cs = filter (\<lambda>c. comment_id c \<notin> seen \<and> author c \<noteq> Some me) cs"

subsection \<open>A round to evaluate\<close>

text \<open>
  A round on the question whose answer is Paris, posted at time 0 by a bot that has just
  started, and three comments on it, for which every call to Reddit returns and no reply to
  a wrong answer is drawn. The fourth comment is the second one with a celebration that
  raises.
\<close>

definition paris_round :: bot where
  "paris_round = post_question new_bot ''post1'' ''Paris'' 0"

definition comment_parma :: comment where
  "comment_parma =
     \<lparr>comment_id = ''t1'', author = Some ''alice'', body = ''Parma'', seen_at = 3,
      me_call = Returns, feedback_reply = None, encouragement_reply = None,
      celebration_reply = Returns\<rparr>"

definition comment_paris :: comment where
  "comment_paris =
     \<lparr>comment_id = ''t2'', author = Some ''bob'', body = ''paris'', seen_at = 5,
      me_call = Returns, feedback_reply = None, encouragement_reply = None,
      celebration_reply = Returns\<rparr>"

definition comment_late :: comment where
  "comment_late =
     \<lparr>comment_id = ''t3'', author = Some ''carol'', body = ''Paris'', seen_at = 8,
      me_call = Returns, feedback_reply = None, encouragement_reply = None,
      celebration_reply = Returns\<rparr>"

definition comment_unanswered :: comment where
  "comment_unanswered = comment_paris\<lparr>celebration_reply := Raises\<rparr>"

text \<open>A comment that is a single space, seen before the others.\<close>

definition comment_blank :: comment where
  "comment_blank =
     \<lparr>comment_id = ''t0'', author = Some ''dave'', body = '' '', seen_at = 2,
      me_call = Returns, feedback_reply = None, encouragement_reply = None,
      celebration_reply = Returns\<rparr>"

text \<open>
  A library that decodes the character reference for the capital letter A, as
  \<open>html.unescape\<close> does, and is the library on plain text otherwise.
\<close>

definition entity_lib :: pylib where
  "entity_lib = plain_lib\<lparr>html_unescape := (\<lambda>text. if text = ''&#65;'' then ''A'' else text)\<rparr>"

section \<open>Results\<close>

subsection \<open>Lemmas on the matcher and the monitoring loop\<close>

lemma str_in_Nil: "str_in [] s"
  by (cases s) simp_all

lemma submissions_insert:
  "comment_id c \<notin> comment_id ` set cs \<Longrightarrow>
   submissions me (insert (comment_id c) seen) cs = submissions me seen cs"
  unfolding submissions_def
proof (rule filter_cong)
  show "cs = cs" by (rule refl)
next
  fix d assume "d \<in> set cs"
  then have "comment_id d \<in> comment_id ` set cs" by (rule imageI)
  moreover assume "comment_id c \<notin> comment_id ` set cs"
  ultimately have "comment_id d \<noteq> comment_id c" by metis
  then show "(comment_id d \<notin> insert (comment_id c) seen \<and> author d \<noteq> Some me)
               = (comment_id d \<notin> seen \<and> author d \<noteq> Some me)"
    by simp
qed

lemma monitor_loop_first_correct:
  assumes "question_start_time st = Some start"
    and "distinct (map comment_id cs)"
    and "\<forall>c \<in> set cs. calls_return c"
    and "k < length (submissions me (processed_comments st) cs)"
    and "fst (is_correct_answer L (body (submissions me (processed_comments st) cs ! k))
                (current_answer st))"
    and "\<forall>j < k. \<not> fst (is_correct_answer L
                            (body (submissions me (processed_comments st) cs ! j))
                            (current_answer st))"
  shows "\<exists>st' reply. monitor_loop L me cs st = (st', Some reply)
           \<and> cel_comment reply = comment_id (submissions me (processed_comments st) cs ! k)
           \<and> cel_winner reply = author_name (submissions me (processed_comments st) cs ! k)
           \<and> \<not> waiting_for_answer st'"
  using assms
proof (induction cs arbitrary: st k)
  case Nil
  then show ?case by (simp add: submissions_def)
next
  case (Cons c cs)
  have calls: "calls_return c" and rest_calls: "\<forall>d \<in> set cs. calls_return d"
    using Cons.prems(3) by simp_all
  have dist: "distinct (map comment_id cs)" and new_id: "comment_id c \<notin> comment_id ` set cs"
    using Cons.prems(2) by simp_all
  show ?case
  proof (cases "comment_id c \<in> processed_comments st")
    case True
    then have subs: "submissions me (processed_comments st) (c # cs)
                       = submissions me (processed_comments st) cs"
      by (simp add: submissions_def)
    have "\<exists>st' reply. monitor_loop L me cs st = (st', Some reply)
           \<and> cel_comment reply = comment_id (submissions me (processed_comments st) cs ! k)
           \<and> cel_winner reply = author_name (submissions me (processed_comments st) cs ! k)
           \<and> \<not> waiting_for_answer st'"
      using Cons.prems(1) dist rest_calls Cons.prems(4-6) unfolding subs
      by (rule Cons.IH)
    with True show ?thesis
      unfolding subs by simp
  next
    case fresh: False
    define st0 where "st0 = st\<lparr>processed_comments := insert (comment_id c) (processed_comments st)\<rparr>"
    have subs0: "submissions me (processed_comments st0) cs = submissions me (processed_comments st) cs"
      using new_id by (simp add: st0_def submissions_insert)
    show ?thesis
    proof (cases "author c = Some me")
      case True
      with fresh have subs: "submissions me (processed_comments st) (c # cs)
                         = submissions me (processed_comments st0) cs"
        by (simp add: submissions_def subs0 [unfolded submissions_def])
      have step: "monitor_loop L me (c # cs) st = monitor_loop L me cs st0"
        using fresh True calls by (simp add: st0_def calls_return_def)
      have "\<exists>st' reply. monitor_loop L me cs st0 = (st', Some reply)
             \<and> cel_comment reply = comment_id (submissions me (processed_comments st0) cs ! k)
             \<and> cel_winner reply = author_name (submissions me (processed_comments st0) cs ! k)
             \<and> \<not> waiting_for_answer st'"
      proof (rule Cons.IH)
        show "question_start_time st0 = Some start"
          using Cons.prems(1) by (simp add: st0_def)
        show "distinct (map comment_id cs)" by (rule dist)
        show "\<forall>c \<in> set cs. calls_return c" by (rule rest_calls)
        show "k < length (submissions me (processed_comments st0) cs)"
          using Cons.prems(4) unfolding subs .
        show "fst (is_correct_answer L (body (submissions me (processed_comments st0) cs ! k))
                (current_answer st0))"
          using Cons.prems(5) unfolding subs by (simp add: st0_def)
        show "\<forall>j < k. \<not> fst (is_correct_answer L
                            (body (submissions me (processed_comments st0) cs ! j))
                            (current_answer st0))"
          using Cons.prems(6) unfolding subs by (simp add: st0_def)
      qed
      then show ?thesis
        unfolding step subs .
    next
      case other: False
      with fresh have subs: "submissions me (processed_comments st) (c # cs)
                         = c # submissions me (processed_comments st) cs"
        by (simp add: submissions_def)
      show ?thesis
      proof (cases k)
        case 0
        with Cons.prems(5) have "fst (is_correct_answer L (body c) (current_answer st))"
          unfolding subs by simp
        with fresh other calls Cons.prems(1) 0 show ?thesis
          unfolding subs by (simp add: Let_def case_prod_beta calls_return_def)
      next
        case (Suc k')
        with Cons.prems(6) have wrong: "\<not> fst (is_correct_answer L (body c) (current_answer st))"
          unfolding subs by auto
        define st1 where "st1 = st\<lparr>processed_comments := insert (comment_id c) (processed_comments st),
            question_answers := question_answers st @
              [\<lparr>ans_username = author_name c, ans_answer = body c,
                ans_response_time = seen_at c - start\<rparr>],
            user_stats := update_user_stats (user_stats st) (author_name c) False
                            (seen_at c - start) (seen_at c)\<rparr>"
        have subs1: "submissions me (processed_comments st1) cs
                       = submissions me (processed_comments st) cs"
          using new_id by (simp add: st1_def submissions_insert)
        have step: "monitor_loop L me (c # cs) st = monitor_loop L me cs st1"
          using fresh other calls Cons.prems(1) wrong
          by (simp add: Let_def st1_def case_prod_beta calls_return_def)
        have "\<exists>st' reply. monitor_loop L me cs st1 = (st', Some reply)
               \<and> cel_comment reply = comment_id (submissions me (processed_comments st1) cs ! k')
               \<and> cel_winner reply = author_name (submissions me (processed_comments st1) cs ! k')
               \<and> \<not> waiting_for_answer st'"
        proof (rule Cons.IH)
          show "question_start_time st1 = Some start"
            using Cons.prems(1) by (simp add: st1_def)
          show "distinct (map comment_id cs)" by (rule dist)
          show "\<forall>c \<in> set cs. calls_return c" by (rule rest_calls)
          show "k' < length (submissions me (processed_comments st1) cs)"
            using Cons.prems(4) Suc unfolding subs subs1 by simp
          show "fst (is_correct_answer L (body (submissions me (processed_comments st1) cs ! k'))
                  (current_answer st1))"
            using Cons.prems(5) Suc unfolding subs subs1 by (simp add: st1_def)
          show "\<forall>j < k'. \<not> fst (is_correct_answer L
                              (body (submissions me (processed_comments st1) cs ! j))
                              (current_answer st1))"
            using Cons.prems(6) Suc unfolding subs subs1 by (auto simp: st1_def)
        qed
        then show ?thesis
          unfolding step subs subs1 using Suc by simp
      qed
    qed
  qed
qed

lemma monitor_loop_append:
  "monitor_loop L me cs st = (st', Some reply) \<Longrightarrow>
   monitor_loop L me (cs @ later) st = (st', Some reply)"
proof (induction cs arbitrary: st)
  case Nil
  then show ?case by simp
next
  case (Cons c cs)
  from Cons.prems show ?case
    by (auto simp: Let_def case_prod_beta Cons.IH split: if_splits option.splits)
qed

lemma monitor_loop_waiting:
  "monitor_loop L me cs st = (st', Some reply) \<Longrightarrow> \<not> waiting_for_answer st'"
proof (induction cs arbitrary: st)
  case Nil
  then show ?case by simp
next
  case (Cons c cs)
  from Cons.prems show ?case
    by (auto simp: Let_def case_prod_beta dest: Cons.IH split: if_splits option.splits)
qed

lemma is_match_empty_guard:
  "user_answer = [] \<or> correct_answer = [] \<Longrightarrow>
   is_match L user_answer correct_answer threshold = (False, 0, ''empty'')"
  by (simp add: is_match_def)

text \<open>
  First correct wins, when the calls return. Let a question be open and an answer awaited,
  let the ids of the fetched comments differ and the calls to Reddit that their handling
  makes return. If submission \<open>k\<close> of the fetch is the first whose verdict against the
  round's answer is a match, then \<open>monitor_comments\<close> celebrates it and its author as the
  winner and stops waiting, whatever the fetch holds besides: comments processed by an
  earlier call, the bot's own comments, and the comments after the winner.
\<close>

lemma monitor_comments_first_correct:
  assumes "current_question st \<noteq> None" and "waiting_for_answer st"
    and "question_start_time st = Some start"
    and "distinct (map comment_id cs)"
    and "\<forall>c \<in> set cs. calls_return c"
    and "k < length (submissions me (processed_comments st) cs)"
    and "fst (is_correct_answer L (body (submissions me (processed_comments st) cs ! k))
                (current_answer st))"
    and "\<forall>j < k. \<not> fst (is_correct_answer L
                            (body (submissions me (processed_comments st) cs ! j))
                            (current_answer st))"
  shows "\<exists>st' reply. monitor_comments L me cs st = (st', Some reply)
           \<and> cel_comment reply = comment_id (submissions me (processed_comments st) cs ! k)
           \<and> cel_winner reply = author_name (submissions me (processed_comments st) cs ! k)
           \<and> \<not> waiting_for_answer st'
           \<and> monitor_comments L me (cs @ later) st = (st', Some reply)"
proof -
  from monitor_loop_first_correct [OF assms(3-8)] obtain st' reply where
    won: "monitor_loop L me cs st = (st', Some reply)"
    and who: "cel_comment reply = comment_id (submissions me (processed_comments st) cs ! k)"
      "cel_winner reply = author_name (submissions me (processed_comments st) cs ! k)"
      "\<not> waiting_for_answer st'"
    by blast
  from won have "monitor_loop L me (cs @ later) st = (st', Some reply)"
    by (rule monitor_loop_append)
  with won who assms(1,2) show ?thesis
    by (simp add: monitor_comments_def)
qed

lemma paris_round_fields:
  "current_question paris_round = Some ''post1''"
  "current_answer paris_round = ''Paris''"
  "question_start_time paris_round = Some 0"
  "waiting_for_answer paris_round"
  "processed_comments paris_round = {}"
  "question_answers paris_round = []"
  by (simp_all add: paris_round_def post_question_def new_bot_def)

lemma verdict_paris: "is_correct_answer plain_lib ''paris'' ''Paris'' = (True, 1, ''exact'')"
  by code_simp

text \<open>
  The lemma at work on a second call: the first call of the round of the example has seen
  alice's wrong answer; the second fetches her comment again, with bob's and carol's, and
  bob wins.
\<close>

lemma second_poll_first_correct:
  "\<exists>st' reply.
     monitor_comments plain_lib ''quizbot'' [comment_parma, comment_paris, comment_late]
       (fst (monitor_comments plain_lib ''quizbot'' [comment_parma] paris_round))
       = (st', Some reply)
     \<and> cel_comment reply = ''t2'' \<and> cel_winner reply = ''bob'' \<and> \<not> waiting_for_answer st'"
proof -
  define st1 where "st1 = fst (monitor_comments plain_lib ''quizbot'' [comment_parma] paris_round)"
  let ?cs = "[comment_parma, comment_paris, comment_late]"
  have h1: "current_question st1 \<noteq> None" and h2: "waiting_for_answer st1"
    and h3: "question_start_time st1 = Some 0"
    and answer: "current_answer st1 = ''Paris''"
    and seen: "processed_comments st1 = {''t1''}"
    unfolding st1_def by code_simp+
  have subs: "submissions ''quizbot'' (processed_comments st1) ?cs = [comment_paris, comment_late]"
    by (simp add: seen submissions_def comment_parma_def comment_paris_def comment_late_def)
  have h4: "distinct (map comment_id ?cs)"
    by (simp add: comment_parma_def comment_paris_def comment_late_def)
  have h5: "\<forall>c \<in> set ?cs. calls_return c"
    by (simp add: calls_return_def comment_parma_def comment_paris_def comment_late_def)
  have h6: "0 < length (submissions ''quizbot'' (processed_comments st1) ?cs)"
    by (simp add: subs)
  have h7: "fst (is_correct_answer plain_lib
                  (body (submissions ''quizbot'' (processed_comments st1) ?cs ! 0))
                  (current_answer st1))"
    unfolding subs answer by (simp add: comment_paris_def verdict_paris)
  have h8: "\<forall>j < 0. \<not> fst (is_correct_answer plain_lib
                  (body (submissions ''quizbot'' (processed_comments st1) ?cs ! j))
                  (current_answer st1))"
    by simp
  from monitor_comments_first_correct [OF h1 h2 h3 h4 h5 h6 h7 h8, of "[]"]
  show ?thesis
    unfolding st1_def [symmetric] subs by (auto simp: comment_paris_def author_name_def)
qed

subsection \<open>Lemmas on splitting and joining\<close>

lemma isspace_space: "isspace CHR '' ''"
  by (simp add: isspace_def)

lemma split_run_nospace:
  "\<forall>c \<in> set w. \<not> isspace c \<Longrightarrow> split_run (w @ rest) run = split_run rest (rev w @ run)"
  by (induction w arbitrary: run) simp_all

lemma split_run_tokens:
  "\<forall>c \<in> set run. \<not> isspace c \<Longrightarrow>
   \<forall>w \<in> set (split_run cs run). token w \<and> set w \<subseteq> set cs \<union> set run"
proof (induction cs arbitrary: run)
  case Nil
  then show ?case by (auto simp: token_def)
next
  case (Cons c cs)
  show ?case
  proof (cases "isspace c")
    case True
    have "\<forall>w \<in> set (split_run cs []). token w \<and> set w \<subseteq> set cs \<union> set []"
      by (rule Cons.IH) simp
    with True Cons.prems show ?thesis
      by (auto simp: token_def)
  next
    case False
    with Cons.prems have "\<forall>d \<in> set (c # run). \<not> isspace d"
      by simp
    then have "\<forall>w \<in> set (split_run cs (c # run)). token w \<and> set w \<subseteq> set cs \<union> set (c # run)"
      by (rule Cons.IH)
    with False show ?thesis
      by auto
  qed
qed

lemma split_tokens: "w \<in> set (split s) \<Longrightarrow> token w \<and> set w \<subseteq> set s"
  using split_run_tokens [of "[]" s] by (simp add: split_def)

lemma split_join_tokens:
  "\<forall>w \<in> set toks. token w \<Longrightarrow> split (join '' '' toks) = toks"
proof (induction toks)
  case Nil
  then show ?case by (simp add: split_def)
next
  case (Cons w toks)
  then have w: "w \<noteq> []" "\<forall>c \<in> set w. \<not> isspace c"
    by (simp_all add: token_def)
  show ?case
  proof (cases toks)
    case Nil
    with w show ?thesis
      using split_run_nospace [of w "[]" "[]"] by (simp add: split_def)
  next
    case (Cons v rest)
    have "split_run (w @ CHR '' '' # join '' '' toks) [] = split_run (CHR '' '' # join '' '' toks) (rev w @ [])"
      using w(2) by (rule split_run_nospace)
    also have "\<dots> = w # split (join '' '' toks)"
      using w(1) by (simp add: isspace_space split_def)
    also have "\<dots> = w # toks"
      using Cons.IH Cons.prems by simp
    finally show ?thesis
      using Cons by (simp add: split_def)
  qed
qed

lemma sub_spaces_from_token:
  "token w \<Longrightarrow> sub_spaces_from b (w @ rest) = w @ sub_spaces_from False rest"
proof (induction w arbitrary: b)
  case Nil
  then show ?case by (simp add: token_def)
next
  case (Cons c w)
  show ?case
  proof (cases "w = []")
    case True
    with Cons.prems show ?thesis by (simp add: token_def)
  next
    case False
    with Cons.prems have "token w" by (simp add: token_def)
    then have "sub_spaces_from False (w @ rest) = w @ sub_spaces_from False rest"
      by (rule Cons.IH)
    with Cons.prems show ?thesis by (simp add: token_def)
  qed
qed

lemma sub_spaces_from_join:
  "\<forall>w \<in> set toks. token w \<Longrightarrow> sub_spaces_from b (join '' '' toks) = join '' '' toks"
proof (induction toks arbitrary: b)
  case Nil
  then show ?case by simp
next
  case (Cons w toks)
  then have w: "token w" by simp
  show ?case
  proof (cases toks)
    case Nil
    then show ?thesis
      using sub_spaces_from_token [OF w, of b "[]"] by simp
  next
    case (Cons v rest)
    have "sub_spaces_from b (w @ CHR '' '' # join '' '' toks)
            = w @ sub_spaces_from False (CHR '' '' # join '' '' toks)"
      using w by (rule sub_spaces_from_token)
    also have "\<dots> = w @ CHR '' '' # sub_spaces_from True (join '' '' toks)"
      by (simp add: isspace_space)
    also have "\<dots> = w @ CHR '' '' # join '' '' toks"
      using Cons.IH Cons.prems by simp
    finally show ?thesis
      using Cons by simp
  qed
qed

lemma sub_spaces_join:
  "\<forall>w \<in> set toks. token w \<Longrightarrow> sub_spaces (join '' '' toks) = join '' '' toks"
  by (simp add: sub_spaces_def sub_spaces_from_join)

lemma join_ends:
  "\<forall>w \<in> set toks. token w \<Longrightarrow> toks \<noteq> [] \<Longrightarrow>
   join '' '' toks \<noteq> [] \<and> \<not> isspace (hd (join '' '' toks)) \<and> \<not> isspace (last (join '' '' toks))"
proof (induction toks)
  case Nil
  then show ?case by simp
next
  case (Cons w toks)
  then have w: "w \<noteq> []" "\<forall>c \<in> set w. \<not> isspace c"
    by (simp_all add: token_def)
  show ?case
  proof (cases toks)
    case Nil
    with w show ?thesis by simp
  next
    case (Cons v rest)
    with Cons.IH Cons.prems have "join '' '' toks \<noteq> [] \<and> \<not> isspace (last (join '' '' toks))"
      by simp
    with w Cons show ?thesis by simp
  qed
qed

lemma strip_id:
  "s = [] \<or> (\<not> isspace (hd s) \<and> \<not> isspace (last s)) \<Longrightarrow> strip s = s"
proof (cases "s = []")
  case True
  then show ?thesis by (simp add: strip_def)
next
  case False
  assume "s = [] \<or> (\<not> isspace (hd s) \<and> \<not> isspace (last s))"
  with False have ends: "\<not> isspace (hd s)" "\<not> isspace (last s)" by simp_all
  from False ends(1) have "dropWhile isspace s = s"
    by (simp add: dropWhile_eq_self_iff)
  moreover from False ends(2) have "dropWhile isspace (rev s) = rev s"
    by (simp add: dropWhile_eq_self_iff hd_rev)
  ultimately show ?thesis by (simp add: strip_def)
qed

lemma strip_join:
  "\<forall>w \<in> set toks. token w \<Longrightarrow> strip (join '' '' toks) = join '' '' toks"
proof (cases "toks = []")
  case True
  then show ?thesis by (simp add: strip_def)
next
  case False
  assume "\<forall>w \<in> set toks. token w"
  from join_ends [OF this False] show ?thesis
    by (simp add: strip_id)
qed

lemma join_append:
  "xs \<noteq> [] \<Longrightarrow> ys \<noteq> [] \<Longrightarrow> join sep (xs @ ys) = join sep xs @ sep @ join sep ys"
proof (induction xs)
  case Nil
  then show ?case by simp
next
  case (Cons x xs)
  show ?case
  proof (cases xs)
    case Nil
    with Cons.prems show ?thesis by (cases ys) simp_all
  next
    case (Cons x' xs')
    with Cons.IH Cons.prems show ?thesis by simp
  qed
qed

lemma join_concat:
  "\<forall>ts \<in> set tss. ts \<noteq> [] \<Longrightarrow> join sep (map (join sep) tss) = join sep (concat tss)"
proof (induction tss)
  case Nil
  then show ?case by simp
next
  case (Cons ts tss)
  show ?case
  proof (cases tss)
    case Nil
    then show ?thesis by simp
  next
    case (Cons ts' tss')
    with Cons.prems have "concat tss \<noteq> []" by auto
    moreover from Cons.prems have "ts \<noteq> []" by simp
    ultimately have "join sep (ts @ concat tss) = join sep ts @ sep @ join sep (concat tss)"
      by (rule join_append [rotated])
    with Cons.IH Cons.prems Cons show ?thesis by simp
  qed
qed

subsection \<open>Lemmas on the stages of the normalization\<close>

lemma replace_single:
  "replace [c] v (a # as) = (if a = c then v @ replace [c] v as else a # replace [c] v as)"
  by simp

lemma replace_absent: "c \<notin> set t \<Longrightarrow> replace [c] v t = t"
  by (induction t) (auto simp del: replace.simps(2) simp add: replace_single)

lemma replace_set: "set (replace [c] v t) \<subseteq> (set t - {c}) \<union> set v"
  by (induction t) (auto simp del: replace.simps(2) simp add: replace_single)

lemma replace_all_absent:
  "\<forall>(k, v) \<in> set kvs. \<exists>c. k = [c] \<and> c \<notin> set t \<Longrightarrow> replace_all kvs t = t"
proof (induction kvs)
  case Nil
  then show ?case by (simp add: replace_all_def)
next
  case (Cons kv kvs)
  obtain k v where kv: "kv = (k, v)" by (cases kv)
  with Cons.prems obtain c where c: "k = [c]" "c \<notin> set t" by auto
  then have "replace k v t = t" by (simp add: replace_absent del: replace.simps)
  moreover have "replace_all kvs t = t"
    using Cons.prems by (intro Cons.IH) simp
  ultimately show ?case
    unfolding kv by (simp add: replace_all_def del: replace.simps)
qed

lemma replace_all_set:
  "\<forall>(k, v) \<in> set kvs. \<exists>c. k = [c] \<Longrightarrow>
   set (replace_all kvs t) \<subseteq> (set t - set (concat (map fst kvs))) \<union> set (concat (map snd kvs))"
proof (induction kvs rule: rev_induct)
  case Nil
  then show ?case by (simp add: replace_all_def)
next
  case (snoc kv kvs)
  obtain k v where kv: "kv = (k, v)" by (cases kv)
  with snoc.prems obtain c where c: "k = [c]" by auto
  have step: "replace_all (kvs @ [kv]) t = replace [c] v (replace_all kvs t)"
    unfolding kv c by (simp add: replace_all_def del: replace.simps)
  have "set (replace_all kvs t) \<subseteq> (set t - set (concat (map fst kvs))) \<union> set (concat (map snd kvs))"
    using snoc.prems by (intro snoc.IH) simp
  with replace_set [of c v "replace_all kvs t"]
  have "set (replace [c] v (replace_all kvs t))
          \<subseteq> (set t - (set (concat (map fst kvs)) \<union> {c})) \<union> (set (concat (map snd kvs)) \<union> set v)"
    by blast
  then show ?case
    unfolding step by (simp add: kv c Un_commute)
qed

lemma replacements_single: "\<forall>(k, v) \<in> set replacements. \<exists>c. k = [c]"
  by (simp add: replacements_def)

lemma replacement_values: "\<forall>c \<in> set (concat (map snd replacements)). allowed c \<and> c \<notin> symbol_chars"
  by code_simp

lemma expansion_chars: "\<forall>e \<in> set expansions. \<forall>c \<in> set e. allowed c \<and> c \<notin> symbol_chars"
  by code_simp

lemma expansion_phrases: "\<forall>e \<in> set expansions. e = join '' '' (split e) \<and> split e \<noteq> []"
  by code_simp

lemma expansion_words:
  "\<forall>e \<in> set expansions. \<forall>tok \<in> set (split e). tok \<noteq> ''dc'' \<longrightarrow> normalize_word tok = tok"
  by code_simp

lemma space_not_symbol: "CHR '' '' \<notin> symbol_chars"
  by code_simp

lemma allowed_space: "allowed CHR '' ''"
  by (simp add: allowed_def isspace_space)

lemma normalize_word_cases: "normalize_word w = w \<or> normalize_word w \<in> set expansions"
  by (auto simp: normalize_word_def expansions_def Let_def image_iff
           split: option.splits dest!: map_of_SomeD) force+

lemma set_join: "set (join sep xs) \<subseteq> set sep \<union> set (concat xs)"
proof (induction xs)
  case Nil
  then show ?case by simp
next
  case (Cons x xs)
  then show ?case by (cases xs) auto
qed

lemma sub_punctuation_allowed: "\<forall>c \<in> set (sub_punctuation t). allowed c"
  by (auto simp: sub_punctuation_def allowed_def isspace_space)

lemma sub_punctuation_set: "set (sub_punctuation t) \<subseteq> set t \<union> {CHR '' ''}"
  by (auto simp: sub_punctuation_def)

lemma sub_punctuation_id: "\<forall>c \<in> set t. allowed c \<Longrightarrow> sub_punctuation t = t"
  by (simp add: sub_punctuation_def allowed_def map_idI)

lemma normalize_text_nonempty:
  "x \<noteq> [] \<Longrightarrow>
   normalize_text L x =
     strip (sub_spaces (join '' '' (map normalize_word (split (sub_punctuation
       (replace_all replacements
          (filter (\<lambda>c. \<not> combining L c) (nfkd L (html_unescape L (strip (lower x)))))))))))"
  by (simp add: normalize_text_def replace_all_def Let_def del: replace.simps)

lemma normalize_text_shape:
  assumes "x \<noteq> []"
  shows "\<exists>toks. normalize_text L x = join '' '' toks
           \<and> (\<forall>tok \<in> set toks. settled tok
                 \<and> set tok \<subseteq> set (filter (\<lambda>c. \<not> combining L c)
                                   (nfkd L (html_unescape L (strip (lower x))))) \<union> stock_chars)"
proof -
  define t4 where "t4 = filter (\<lambda>c. \<not> combining L c) (nfkd L (html_unescape L (strip (lower x))))"
  define t5 where "t5 = replace_all replacements t4"
  define t6 where "t6 = sub_punctuation t5"
  define ws where "ws = split t6"
  define toks where "toks = concat (map (\<lambda>w. split (normalize_word w)) ws)"
  have t5_set: "set t5 \<subseteq> (set t4 - symbol_chars) \<union> set (concat (map snd replacements))"
    unfolding t5_def symbol_chars_def using replacements_single by (rule replace_all_set)
  have t6_chars: "allowed c \<and> c \<notin> symbol_chars \<and> c \<in> set t4 \<union> stock_chars" if "c \<in> set t6" for c
  proof -
    from that have "allowed c" and "c \<in> set t5 \<or> c = CHR '' ''"
      using sub_punctuation_allowed [of t5] sub_punctuation_set [of t5] by (auto simp: t6_def)
    then show ?thesis
      using t5_set replacement_values space_not_symbol by (auto simp: stock_chars_def)
  qed
  have piece: "normalize_word w = join '' '' (split (normalize_word w)) \<and> split (normalize_word w) \<noteq> []
      \<and> (\<forall>tok \<in> set (split (normalize_word w)). settled tok \<and> set tok \<subseteq> set t4 \<union> stock_chars)"
    if w: "w \<in> set ws" for w
  proof -
    from w have tok_w: "token w" and w_sub: "set w \<subseteq> set t6"
      using split_tokens [of w t6] by (simp_all add: ws_def)
    from normalize_word_cases [of w] show ?thesis
    proof
      assume same: "normalize_word w = w"
      from tok_w have "split (join '' '' [w]) = [w]"
        by (intro split_join_tokens) simp
      then have split_w: "split w = [w]" by simp
      have "settled w"
        using tok_w w_sub t6_chars same by (auto simp: settled_def)
      moreover have "set w \<subseteq> set t4 \<union> stock_chars"
        using w_sub t6_chars by auto
      ultimately show ?thesis
        using same split_w by simp
    next
      assume exp: "normalize_word w \<in> set expansions"
      have "settled tok \<and> set tok \<subseteq> set t4 \<union> stock_chars"
        if tok: "tok \<in> set (split (normalize_word w))" for tok
      proof -
        from tok have "token tok" and sub: "set tok \<subseteq> set (normalize_word w)"
          using split_tokens [of tok "normalize_word w"] by simp_all
        moreover from sub exp expansion_chars
        have "\<forall>c \<in> set tok. allowed c \<and> c \<notin> symbol_chars"
          by blast
        moreover from exp tok expansion_words
        have "tok \<noteq> ''dc'' \<longrightarrow> normalize_word tok = tok"
          by blast
        moreover from sub exp have "set tok \<subseteq> stock_chars"
          by (auto simp: stock_chars_def)
        ultimately show ?thesis
          by (auto simp: settled_def)
      qed
      with exp expansion_phrases show ?thesis
        by blast
    qed
  qed
  have pieces: "map normalize_word ws = map (join '' '') (map (\<lambda>w. split (normalize_word w)) ws)"
    using piece by (simp add: comp_def)
  have "\<forall>ts \<in> set (map (\<lambda>w. split (normalize_word w)) ws). ts \<noteq> []"
    using piece by auto
  then have "join '' '' (map normalize_word ws) = join '' '' toks"
    unfolding pieces toks_def by (rule join_concat)
  moreover have settled_toks: "\<forall>tok \<in> set toks. settled tok \<and> set tok \<subseteq> set t4 \<union> stock_chars"
    unfolding toks_def using piece by auto
  then have "\<forall>tok \<in> set toks. token tok"
    by (simp add: settled_def)
  then have "strip (sub_spaces (join '' '' toks)) = join '' '' toks"
    by (simp add: sub_spaces_join strip_join)
  ultimately have "normalize_text L x = join '' '' toks"
    using assms by (simp add: normalize_text_nonempty t4_def t5_def t6_def ws_def del: replace.simps)
  with settled_toks show ?thesis
    unfolding t4_def by blast
qed

lemma normalize_text_fixed:
  assumes toks: "\<forall>tok \<in> set toks. settled tok" and no_dc: "''dc'' \<notin> set toks"
    and y: "y = join '' '' toks"
    and stages: "lower y = y" "html_unescape L y = y" "nfkd L y = y" "\<forall>c \<in> set y. \<not> combining L c"
  shows "normalize_text L y = y"
proof (cases "y = []")
  case True
  then show ?thesis by (simp add: normalize_text_def)
next
  case False
  from toks have tokens: "\<forall>tok \<in> set toks. token tok"
    by (simp add: settled_def)
  have y_chars: "allowed c \<and> c \<notin> symbol_chars" if "c \<in> set y" for c
  proof -
    from that set_join [of "'' ''" toks] have "c = CHR '' '' \<or> c \<in> set (concat toks)"
      by (auto simp: y)
    with toks show ?thesis
      by (auto simp: settled_def allowed_space space_not_symbol)
  qed
  have strip_y: "strip y = y"
    unfolding y using tokens by (rule strip_join)
  have "filter (\<lambda>c. \<not> combining L c) y = y"
    using stages(4) by simp
  moreover have "replace_all replacements y = y"
  proof (rule replace_all_absent)
    show "\<forall>(k, v) \<in> set replacements. \<exists>c. k = [c] \<and> c \<notin> set y"
    proof (clarify)
      fix k v assume kv: "(k, v) \<in> set replacements"
      with replacements_single obtain c where c: "k = [c]" by blast
      with kv have "c \<in> symbol_chars"
        by (force simp: symbol_chars_def)
      with y_chars have "c \<notin> set y" by blast
      with c show "\<exists>c. k = [c] \<and> c \<notin> set y" by blast
    qed
  qed
  moreover have "sub_punctuation y = y"
    using y_chars by (intro sub_punctuation_id) blast
  moreover have "split y = toks"
    unfolding y using tokens by (rule split_join_tokens)
  moreover have "map normalize_word toks = toks"
    using toks no_dc by (intro map_idI) (auto simp: settled_def)
  moreover have "strip (sub_spaces y) = y"
    unfolding y using tokens by (simp add: sub_spaces_join strip_join)
  ultimately show ?thesis
    using False stages(1-3) strip_y y
    by (simp add: normalize_text_nonempty del: replace.simps)
qed

lemma lower_char_plain: "ascii c \<Longrightarrow> c \<noteq> CHR ''&'' \<Longrightarrow> plain_char (lower_char c)"
proof -
  assume a: "ascii c" and b: "c \<noteq> CHR ''&''"
  define n where "n = (of_char c :: nat)"
  show ?thesis
  proof (cases "65 \<le> n \<and> n \<le> 90")
    case True
    define d :: char where "d = char_of (n + 32)"
    from True have low: "lower_char c = d"
      by (simp add: lower_char_def n_def d_def)
    from True have val: "(of_char d :: nat) = n + 32"
      by (simp add: d_def)
    have "d \<noteq> CHR ''&''"
    proof
      assume "d = CHR ''&''"
      then have "(of_char d :: nat) = of_char CHR ''&''" by simp
      with val True show False by simp
    qed
    moreover from val True have "ascii d"
      by (simp add: ascii_def)
    moreover from val True have "lower_char d = d"
      by (simp add: lower_char_def)
    ultimately show ?thesis
      unfolding low by (simp add: plain_char_def)
  next
    case False
    with a have "lower_char c = c"
      by (auto simp: lower_char_def ascii_def n_def Let_def)
    with a b show ?thesis
      by (simp add: plain_char_def)
  qed
qed

lemma strip_set: "set (strip t) \<subseteq> set t"
  by (auto simp: strip_def dest!: set_dropWhileD)

lemma stock_plain: "\<forall>c \<in> set (concat (map snd replacements) @ concat expansions @ '' ''). plain_char c"
  by code_simp

lemma plain_lib_laws: "plain_text_laws plain_lib"
  by (simp add: plain_text_laws_def plain_lib_def)

text \<open>
  A text may change under a second normalization without the word dc in it: the lower case
  is taken before \<open>html.unescape\<close>, so a capital letter written as a character reference
  reaches the normal form, and the second pass lowers it.
\<close>

lemma entity_upper_case:
  "normalize_text entity_lib ''&#65;'' = ''A''
   \<and> normalize_text entity_lib (normalize_text entity_lib ''&#65;'') = ''a''"
  by code_simp

lemma normalize_idem_fixed:
  assumes no_dc: "''dc'' \<notin> set (split (normalize_text L x))"
    and stages: "lower (normalize_text L x) = normalize_text L x"
      "html_unescape L (normalize_text L x) = normalize_text L x"
      "nfkd L (normalize_text L x) = normalize_text L x"
      "\<forall>c \<in> set (normalize_text L x). \<not> combining L c"
  shows "normalize_text L (normalize_text L x) = normalize_text L x"
proof (cases "x = []")
  case True
  then show ?thesis by (simp add: normalize_text_def)
next
  case False
  from normalize_text_shape [OF False, of L] obtain toks where
    y: "normalize_text L x = join '' '' toks" and toks: "\<forall>tok \<in> set toks. settled tok"
    by blast
  from toks have "\<forall>tok \<in> set toks. token tok"
    by (simp add: settled_def)
  then have "split (join '' '' toks) = toks"
    by (rule split_join_tokens)
  with no_dc y have "''dc'' \<notin> set toks"
    by simp
  with toks show ?thesis
    using y stages by (rule normalize_text_fixed)
qed

text \<open>
  Every ASCII text without an ampersand is such a text, unless its normal form contains
  the word dc, when the library does on plain text what Python's does.
\<close>

lemma normalize_idem_plain:
  assumes laws: "plain_text_laws L"
    and x_ascii: "\<forall>c \<in> set x. ascii c" and x_amp: "CHR ''&'' \<notin> set x"
    and no_dc: "''dc'' \<notin> set (split (normalize_text L x))"
  shows "normalize_text L (normalize_text L x) = normalize_text L x"
proof (cases "x = []")
  case True
  then show ?thesis by (simp add: normalize_text_def)
next
  case False
  define t1 where "t1 = strip (lower x)"
  have t1_plain: "\<forall>c \<in> set t1. plain_char c"
  proof
    fix c assume "c \<in> set t1"
    then have "c \<in> set (lower x)"
      using strip_set [of "lower x"] by (auto simp: t1_def)
    then obtain d where "d \<in> set x" "c = lower_char d"
      by (auto simp: lower_def)
    with x_ascii x_amp show "plain_char c"
      by (auto intro: lower_char_plain)
  qed
  then have "html_unescape L t1 = t1"
    using laws by (auto simp: plain_text_laws_def plain_char_def)
  moreover from t1_plain have "nfkd L t1 = t1"
    using laws by (simp add: plain_text_laws_def plain_char_def)
  moreover from t1_plain have "filter (\<lambda>c. \<not> combining L c) t1 = t1"
    using laws by (simp add: plain_text_laws_def plain_char_def)
  ultimately have t4: "filter (\<lambda>c. \<not> combining L c) (nfkd L (html_unescape L (strip (lower x)))) = t1"
    by (simp add: t1_def)
  from normalize_text_shape [OF False, of L] obtain toks where
    y: "normalize_text L x = join '' '' toks"
    and toks: "\<forall>tok \<in> set toks. settled tok \<and> set tok \<subseteq> set t1 \<union> stock_chars"
    unfolding t4 by blast
  have y_plain: "plain_char c" if "c \<in> set (normalize_text L x)" for c
  proof -
    from that set_join [of "'' ''" toks] have "c = CHR '' '' \<or> c \<in> set (concat toks)"
      by (auto simp: y)
    moreover have "CHR '' '' \<in> stock_chars"
      by (simp add: stock_chars_def)
    moreover have "set (concat toks) \<subseteq> set t1 \<union> stock_chars"
      using toks by auto
    ultimately have "c \<in> set t1 \<union> stock_chars"
      by blast
    moreover have "\<forall>c \<in> stock_chars. plain_char c"
      using stock_plain by (simp add: stock_chars_def Un_commute Un_left_commute)
    ultimately show ?thesis
      using t1_plain by blast
  qed
  have tokens: "\<forall>tok \<in> set toks. token tok"
    using toks by (simp add: settled_def)
  have "split (normalize_text L x) = toks"
    unfolding y using tokens by (rule split_join_tokens)
  with no_dc have "''dc'' \<notin> set toks" by simp
  moreover have "lower (normalize_text L x) = normalize_text L x"
    using y_plain by (simp add: lower_def plain_char_def map_idI)
  moreover have "html_unescape L (normalize_text L x) = normalize_text L x"
    using y_plain laws by (auto simp: plain_text_laws_def plain_char_def)
  moreover have "nfkd L (normalize_text L x) = normalize_text L x"
    using y_plain laws by (simp add: plain_text_laws_def plain_char_def)
  moreover have "\<forall>c \<in> set (normalize_text L x). \<not> combining L c"
    using y_plain laws by (simp add: plain_text_laws_def plain_char_def)
  ultimately show ?thesis
    using toks y by (intro normalize_text_fixed [of toks]) simp_all
qed

subsection \<open>Lemmas on the matching blocks\<close>

lemma foldl_invariant:
  "P s \<Longrightarrow> (\<And>s x. x \<in> set xs \<Longrightarrow> P s \<Longrightarrow> P (f s x)) \<Longrightarrow> P (foldl f s xs)"
  by (induction xs arbitrary: s) simp_all

lemma run_length_le: "run_length pop a b i j \<le> Suc i \<and> run_length pop a b i j \<le> Suc j"
proof -
  have "run_length pop a b i j \<le> length (zip (rev (take (Suc i) a)) (rev (take (Suc j) b)))"
    unfolding run_length_def by (rule length_takeWhile_le)
  then show ?thesis by simp
qed

lemma common_prefix_le: "common_prefix a b \<le> length a \<and> common_prefix a b \<le> length b"
proof -
  have "common_prefix a b \<le> length (zip a b)"
    unfolding common_prefix_def by (rule length_takeWhile_le)
  then show ?thesis by simp
qed

lemma longest_block_bound:
  "case foldl (\<lambda>(besti, bestj, bestsize) (i, j).
                 let k = run_length pop a b i j in
                 if bestsize < k then (Suc i - k, Suc j - k, k)
                 else (besti, bestj, bestsize))
          (0, 0, 0) (List.product [0..<length a] [0..<length b])
   of (besti, bestj, bestsize) \<Rightarrow> besti + bestsize \<le> length a \<and> bestj + bestsize \<le> length b"
proof (rule foldl_invariant)
  show "case (0, 0, 0) of (besti, bestj, bestsize) \<Rightarrow>
          besti + bestsize \<le> length a \<and> bestj + bestsize \<le> length b"
    by simp
next
  fix s :: "nat \<times> nat \<times> nat" and x :: "nat \<times> nat"
  assume x: "x \<in> set (List.product [0..<length a] [0..<length b])"
    and s: "case s of (besti, bestj, bestsize) \<Rightarrow>
              besti + bestsize \<le> length a \<and> bestj + bestsize \<le> length b"
  obtain besti bestj bestsize where s_eq: "s = (besti, bestj, bestsize)"
    by (cases s) auto
  obtain i j where x_eq: "x = (i, j)"
    by (cases x) auto
  from x x_eq have "i < length a" "j < length b"
    by simp_all
  with run_length_le [of pop a b i j] s
  show "case (case s of (besti, bestj, bestsize) \<Rightarrow>
                \<lambda>(i, j). let k = run_length pop a b i j in
                  if bestsize < k then (Suc i - k, Suc j - k, k)
                  else (besti, bestj, bestsize)) x
        of (besti, bestj, bestsize) \<Rightarrow>
          besti + bestsize \<le> length a \<and> bestj + bestsize \<le> length b"
    by (simp add: s_eq x_eq Let_def)
qed


lemma find_longest_match_bound:
  "find_longest_match pop a b = (i, j, k) \<Longrightarrow> i + k \<le> length a \<and> j + k \<le> length b"
proof -
  assume result: "find_longest_match pop a b = (i, j, k)"
  define best where "best =
    foldl (\<lambda>(besti, bestj, bestsize) (i, j).
                 let k = run_length pop a b i j in
                 if bestsize < k then (Suc i - k, Suc j - k, k)
                 else (besti, bestj, bestsize))
          (0, 0, 0) (List.product [0..<length a] [0..<length b])"
  obtain besti bestj bestsize where best_eq: "best = (besti, bestj, bestsize)"
    by (cases best) auto
  from longest_block_bound [where pop = pop and a = a and b = b]
  have bound: "besti + bestsize \<le> length a" "bestj + bestsize \<le> length b"
    unfolding best_def [symmetric] best_eq by simp_all
  define before where "before = common_prefix (rev (take besti a)) (rev (take bestj b))"
  define after where "after = common_prefix (drop (besti - before + (bestsize + before)) a)
                                (drop (bestj - before + (bestsize + before)) b)"
  have before_le: "before \<le> besti" "before \<le> bestj"
    using common_prefix_le [of "rev (take besti a)" "rev (take bestj b)"]
    by (simp_all add: before_def)
  have after_le: "after \<le> length a - (besti - before + (bestsize + before))"
    "after \<le> length b - (bestj - before + (bestsize + before))"
    using common_prefix_le [of "drop (besti - before + (bestsize + before)) a"
                               "drop (bestj - before + (bestsize + before)) b"]
    by (simp_all add: after_def)
  have "find_longest_match pop a b = (besti - before, bestj - before, bestsize + before + after)"
    unfolding find_longest_match_def best_def [symmetric] best_eq
    by (simp add: Let_def before_def after_def)
  with result have "i = besti - before" "j = bestj - before" "k = bestsize + before + after"
    by simp_all
  with bound before_le after_le show ?thesis
    by arith
qed


lemma matching_size_unfold:
  "matching_size pop a b =
     (let (i, j, k) = find_longest_match pop a b in
      if k = 0 then 0
      else k
        + (if 0 < i \<and> 0 < j then matching_size pop (take i a) (take j b) else 0)
        + (if i + k < length a \<and> j + k < length b
           then matching_size pop (drop (i + k) a) (drop (j + k) b) else 0))"
proof -
  obtain i j k where result: "find_longest_match pop a b = (i, j, k)"
    by (cases "find_longest_match pop a b") auto
  then have "\<not> length a < i + k"
    using find_longest_match_bound [of pop a b i j k] by simp
  with result show ?thesis
    by (subst matching_size.simps) simp
qed

subsection \<open>Lemmas on the ranking of the stored answers\<close>

lemma collect_top_eq:
  "collect_top limit xs acc =
     acc @ take (nat limit - length acc) (filter (\<lambda>s. 3 / 10 < sc_confidence s) xs)"
proof (induction xs arbitrary: acc)
  case Nil
  then show ?case by simp
next
  case (Cons x xs)
  show ?case
  proof (cases "limit \<le> int (length acc)")
    case True
    then have "nat limit - length acc = 0" by simp
    with True show ?thesis by simp
  next
    case False
    then obtain m where m: "nat limit - length acc = Suc m"
      by (cases "nat limit - length acc") auto
    then have m': "nat limit - Suc (length acc) = m" by simp
    from False m m' show ?thesis
      by (simp add: Cons.IH)
  qed
qed

lemma sort_reverse_sorted:
  "sorted_wrt (\<lambda>a b. key_of b \<le> key_of a) (sort_reverse key_of xs)"
proof -
  have "sorted (map key_of (sort_key key_of (rev xs)))"
    by simp
  then have "sorted_wrt (\<lambda>a b. key_of a \<le> key_of b) (sort_key key_of (rev xs))"
    by (simp add: sorted_map)
  then show ?thesis
    by (simp add: sort_reverse_def sorted_wrt_rev)
qed

lemma sort_reverse_stable:
  "filter (\<lambda>x. key_of x = v) (sort_reverse key_of xs) = filter (\<lambda>x. key_of x = v) xs"
proof -
  have "filter (\<lambda>x. key_of x = v) (sort_key key_of (rev xs)) = filter (\<lambda>x. key_of x = v) (rev xs)"
    by (rule sort_key_stable)
  then show ?thesis
    by (simp add: sort_reverse_def rev_filter [symmetric])
qed

lemma sort_reverse_mset: "mset (sort_reverse key_of xs) = mset xs"
  by (simp add: sort_reverse_def)

lemma filter_sorted_desc:
  "sorted_wrt (\<lambda>a b. key_of b \<le> key_of a) ys \<Longrightarrow>
   filter (\<lambda>s. (t::real) < key_of s) ys = takeWhile (\<lambda>s. t < key_of s) ys"
proof (induction ys)
  case Nil
  then show ?case by simp
next
  case (Cons y ys)
  show ?case
  proof (cases "t < key_of y")
    case True
    with Cons show ?thesis by simp
  next
    case False
    with Cons.prems have "\<forall>s \<in> set ys. \<not> t < key_of s"
      by auto
    then have "filter (\<lambda>s. t < key_of s) ys = []"
      by (simp add: filter_empty_conv)
    with False show ?thesis by simp
  qed
qed

lemma takeWhile_take:
  "takeWhile P (take n xs) = take n (takeWhile P xs)"
proof (induction xs arbitrary: n)
  case Nil
  then show ?case by simp
next
  case (Cons x xs)
  then show ?case by (cases n) simp_all
qed

lemma take_filter_sorted_desc:
  assumes "sorted_wrt (\<lambda>a b. key_of b \<le> key_of a) ys"
  shows "take n (filter (\<lambda>s. (t::real) < key_of s) (take (n + 2) ys))
           = take n (filter (\<lambda>s. t < key_of s) ys)"
proof -
  have "sorted_wrt (\<lambda>a b. key_of b \<le> key_of a) (take (n + 2) ys)"
    using assms by (rule sorted_wrt_take)
  then have "filter (\<lambda>s. t < key_of s) (take (n + 2) ys) = takeWhile (\<lambda>s. t < key_of s) (take (n + 2) ys)"
    by (rule filter_sorted_desc)
  also have "\<dots> = take (n + 2) (takeWhile (\<lambda>s. t < key_of s) ys)"
    by (rule takeWhile_take)
  finally show ?thesis
    using filter_sorted_desc [OF assms, of t] by (simp add: min_def)
qed

lemma top_matches_ranking:
  "get_top_matching_answers L answers correct_answer limit =
     take (nat limit)
       (filter (\<lambda>s. 3 / 10 < sc_confidence s)
          (sort_reverse sc_confidence (map (score_answer L correct_answer) answers)))"
proof -
  define ys where "ys = sort_reverse sc_confidence (map (score_answer L correct_answer) answers)"
  have sorted_ys: "sorted_wrt (\<lambda>a b. sc_confidence b \<le> sc_confidence a) ys"
    unfolding ys_def by (rule sort_reverse_sorted)
  have loop: "collect_top limit (slice_to (limit + 2) ys) []
                = take (nat limit) (filter (\<lambda>s. 3 / 10 < sc_confidence s) ys)"
  proof (cases "0 < limit")
    case True
    then have "slice_to (limit + 2) ys = take (nat limit + 2) ys"
      by (simp add: slice_to_def nat_add_distrib)
    then show ?thesis
      using take_filter_sorted_desc [OF sorted_ys, of "nat limit" "3 / 10"]
      by (simp only: collect_top_eq append_Nil list.size minus_nat.diff_0)
  next
    case False
    then show ?thesis
      by (simp add: collect_top_eq)
  qed
  show ?thesis
  proof (cases "answers = []")
    case True
    then show ?thesis
      by (simp add: get_top_matching_answers_def sort_reverse_def)
  next
    case False
    with loop show ?thesis
      by (simp add: get_top_matching_answers_def Let_def ys_def)
  qed
qed

subsection \<open>Rewards and streaks\<close>


lemma update_user_stats_same:
  "update_user_stats tab name correct rt now name =
     Some (update_stats (case tab name of None \<Rightarrow> new_user name now | Some user \<Rightarrow> user)
             correct rt now)"
  by (auto simp: update_user_stats_def Let_def split: option.splits)

lemma update_user_stats_other:
  "other \<noteq> name \<Longrightarrow> update_user_stats tab name correct rt now other = tab other"
  by (auto simp: update_user_stats_def Let_def split: option.splits)

lemma streak_of_win:
  "streak_of (update_user_stats tab name True rt now) name = streak_of tab name + 1"
  by (simp add: streak_of_def update_user_stats_same update_stats_def new_user_def Let_def
           split: option.splits)

lemma streak_of_loss:
  "streak_of (update_user_stats tab name False rt now) name = 0"
  by (simp add: streak_of_def update_user_stats_same update_stats_def Let_def)

lemma max_streak_of_mono:
  "max_streak_of tab other \<le> max_streak_of (update_user_stats tab name correct rt now) other"
proof (cases "other = name")
  case True
  then show ?thesis
    by (simp add: max_streak_of_def update_user_stats_same update_stats_def new_user_def Let_def
             split: option.splits)
next
  case False
  then show ?thesis
    by (simp add: max_streak_of_def update_user_stats_other)
qed

lemma streak_le_max_step:
  assumes "0 \<le> max_streak_of tab other \<and> streak_of tab other \<le> max_streak_of tab other"
  shows "0 \<le> max_streak_of (update_user_stats tab name correct rt now) other
         \<and> streak_of (update_user_stats tab name correct rt now) other
           \<le> max_streak_of (update_user_stats tab name correct rt now) other"
proof (cases "other = name")
  case True
  with assms show ?thesis
    by (auto simp: streak_of_def max_streak_of_def update_user_stats_same update_stats_def
                   new_user_def Let_def split: option.splits)
next
  case False
  with assms show ?thesis
    by (simp add: streak_of_def max_streak_of_def update_user_stats_other)
qed

lemma streak_le_max_all:
  "0 \<le> max_streak_of tab other \<and> streak_of tab other \<le> max_streak_of tab other \<Longrightarrow>
   0 \<le> max_streak_of (update_all tab ups) other
   \<and> streak_of (update_all tab ups) other \<le> max_streak_of (update_all tab ups) other"
proof (induction ups arbitrary: tab)
  case Nil
  then show ?case by simp
next
  case (Cons up ups)
  obtain name correct rt now where up: "up = (name, correct, rt, now)"
    by (cases up) auto
  from Cons.prems have "0 \<le> max_streak_of (update_user_stats tab name correct rt now) other
      \<and> streak_of (update_user_stats tab name correct rt now) other
      \<le> max_streak_of (update_user_stats tab name correct rt now) other"
    by (rule streak_le_max_step)
  then show ?case
    unfolding up by (simp add: Cons.IH)
qed

lemma max_streak_all_mono:
  "max_streak_of tab other \<le> max_streak_of (update_all tab ups) other"
proof (induction ups arbitrary: tab)
  case Nil
  then show ?case by simp
next
  case (Cons up ups)
  obtain name correct rt now where up: "up = (name, correct, rt, now)"
    by (cases up) auto
  have "max_streak_of tab other \<le> max_streak_of (update_user_stats tab name correct rt now) other"
    by (rule max_streak_of_mono)
  also have "\<dots> \<le> max_streak_of (update_all (update_user_stats tab name correct rt now) ups) other"
    by (rule Cons.IH)
  finally show ?case
    unfolding up by simp
qed

text \<open>
  C6. For a response time between 0 and 45 seconds the reward is 10 points plus the bonus of
  the tier the time falls in (10 below 5 s, 7 below 10 s, 5 below 20 s, 3 below 35 s, 1
  otherwise); a later answer never earns more than an earlier one; and exactly 5 seconds
  earns 17 points.
\<close>

theorem reward_tiers:
  "(0 \<le> t \<and> t \<le> 45 \<longrightarrow>
      calculate_points t =
        10 + (if t < 5 then 10 else if t < 10 then 7 else if t < 20 then 5
              else if t < 35 then 3 else 1))
   \<and> (0 \<le> t1 \<and> t1 < t2 \<and> t2 \<le> 45 \<longrightarrow> calculate_points t2 \<le> calculate_points t1)
   \<and> calculate_points 5 = 17"
  by (simp add: calculate_points_def Let_def)

theorem reward_tiers_witness:
  "((0::real) \<le> 12 \<and> (12::real) \<le> 45 \<and> calculate_points 12 = 15)
   \<and> ((0::real) \<le> 4 \<and> (4::real) < 30 \<and> (30::real) \<le> 45
        \<and> calculate_points 30 \<le> calculate_points 4)
   \<and> calculate_points 5 = 17"
  using reward_tiers [of 12 4 30] by simp

text \<open>
  C10. For every response time from 0 on, the points are between 11 and 20; at 45 seconds
  and beyond they are still 11, as the function has no cutoff at the deadline.
\<close>

theorem points_range:
  "(0 \<le> t \<longrightarrow> 11 \<le> calculate_points t \<and> calculate_points t \<le> 20)
   \<and> (45 \<le> t \<longrightarrow> calculate_points t = 11)"
  by (simp add: calculate_points_def Let_def)

theorem points_range_witness:
  "((0::real) \<le> 7 \<and> 11 \<le> calculate_points 7 \<and> calculate_points 7 \<le> 20)
   \<and> ((45::real) \<le> 60 \<and> calculate_points 60 = 11)"
  using points_range [of 7] points_range [of 60] by (simp add: calculate_points_def)

text \<open>
  C7. A win adds exactly 1 to the player's current streak and a loss sets it to 0; no update
  lowers any player's maximal streak; and after every sequence of updates that starts with no
  records (every counter 0), each player's maximal streak is at least the current streak.
\<close>

theorem streak_invariant:
  "streak_of (update_user_stats tab name True rt now) name = streak_of tab name + 1
   \<and> streak_of (update_user_stats tab name False rt now) name = 0
   \<and> max_streak_of tab other \<le> max_streak_of (update_user_stats tab name correct rt now) other
   \<and> max_streak_of tab other \<le> max_streak_of (update_all tab ups) other
   \<and> streak_of (update_all Map.empty ups) other \<le> max_streak_of (update_all Map.empty ups) other"
proof -
  have "0 \<le> max_streak_of Map.empty other
        \<and> streak_of Map.empty other \<le> max_streak_of Map.empty other"
    by (simp add: streak_of_def max_streak_of_def)
  then have "0 \<le> max_streak_of (update_all Map.empty ups) other
        \<and> streak_of (update_all Map.empty ups) other \<le> max_streak_of (update_all Map.empty ups) other"
    by (rule streak_le_max_all)
  then show ?thesis
    by (simp add: streak_of_win streak_of_loss max_streak_of_mono max_streak_all_mono)
qed

subsection \<open>The verdict of the matcher\<close>

text \<open>
  C3. The claim holds for the empty string and fails for a text of white space: the guard
  of \<open>is_match\<close> tests the texts as they come, so a candidate that is a single space is not
  empty for it; its normal form is the empty string, which is contained in every reference,
  and the verdict is a match of type \<open>contains\<close> with confidence 0.95. A comment that is
  a single space wins the round of the example ahead of bob's correct answer.
\<close>

theorem whitespace_candidate_matches:
  "strip '' '' = []
   \<and> is_match plain_lib '' '' ''Paris'' (8 / 10) = (True, 95 / 100, ''contains'')
   \<and> is_match plain_lib [] ''Paris'' (8 / 10) = (False, 0, ''empty'')
   \<and> map_option cel_winner
        (snd (monitor_comments plain_lib ''quizbot'' [comment_blank, comment_paris] paris_round))
      = Some ''dave''"
  by code_simp




text \<open>
  C9. A candidate that is not empty but whose normal form is, against a reference that is
  not empty, is a match: of type \<open>exact\<close> with confidence 1 when the normal form of the
  reference is empty too, and of type \<open>contains\<close> with confidence 0.95 otherwise.
\<close>

theorem empty_normal_form_matches:
  "user_answer \<noteq> [] \<Longrightarrow> correct_answer \<noteq> [] \<Longrightarrow> normalize_text L user_answer = [] \<Longrightarrow>
   is_match L user_answer correct_answer threshold =
     (if normalize_text L correct_answer = [] then (True, 1, ''exact'')
      else (True, 95 / 100, ''contains''))"
  by (auto simp add: is_match_def Let_def str_in_Nil)

theorem empty_normal_form_matches_witness:
  "normalize_text plain_lib ''!?'' = [] \<and> normalize_text plain_lib ''Mars'' = ''mars''
   \<and> is_match plain_lib ''!?'' ''Mars'' (8 / 10) = (True, 95 / 100, ''contains'')
   \<and> is_match plain_lib ''!?'' ''  '' (8 / 10) = (True, 1, ''exact'')"
proof -
  have a: "normalize_text plain_lib ''!?'' = []"
    by code_simp
  have b: "normalize_text plain_lib ''Mars'' = ''mars''"
    by code_simp
  have c: "normalize_text plain_lib ''  '' = []"
    by code_simp
  from a b c
    empty_normal_form_matches [of "''!?''" "''Mars''" plain_lib "8 / 10"]
    empty_normal_form_matches [of "''!?''" "''  ''" plain_lib "8 / 10"]
  show ?thesis by simp
qed

subsection \<open>The round\<close>

text \<open>
  C1. When the calls to Reddit return, the first correct submission wins (lemma
  \<open>monitor_comments_first_correct\<close>). When the reply that celebrates it raises, it does
  not: the statistics of its author are updated before the reply is sent, and
  \<open>waiting_for_answer\<close> is set to \<open>False\<close> only after. In the round of the example, bob's
  answer is the first and is correct; the reply to it raises; bob has his 17 points, no
  celebration is delivered and the round still awaits an answer. The next call fetches
  bob's comment, now processed, and carol's later one, and celebrates carol as the winner.
\<close>

theorem raised_reply_lets_later_comment_win:
  "fst (is_correct_answer plain_lib (body comment_unanswered) (current_answer paris_round))
   \<and> snd (monitor_comments plain_lib ''quizbot'' [comment_unanswered] paris_round) = None
   \<and> waiting_for_answer
        (fst (monitor_comments plain_lib ''quizbot'' [comment_unanswered] paris_round))
   \<and> map_option total_score
        (user_stats (fst (monitor_comments plain_lib ''quizbot'' [comment_unanswered] paris_round))
           ''bob'')
      = Some 17
   \<and> map_option cel_winner
        (snd (monitor_comments plain_lib ''quizbot'' [comment_unanswered, comment_late]
               (fst (monitor_comments plain_lib ''quizbot'' [comment_unanswered] paris_round))))
      = Some ''carol''"
  by code_simp

text \<open>
  C8, as stated, fails: after the round of the example is won by the second comment, a
  later call of \<open>monitor_comments\<close> that also fetches the third comment, a correct answer,
  does not store it: the stored answers are still those of the first two.
\<close>

theorem later_submission_not_stored:
  "map ans_username
     (question_answers
        (fst (monitor_comments plain_lib ''quizbot'' [comment_parma, comment_paris, comment_late]
               (fst (monitor_comments plain_lib ''quizbot'' [comment_parma, comment_paris]
                      paris_round)))))
   = [''alice'', ''bob'']"
  by code_simp

text \<open>
  C8, amended. Once a call of \<open>monitor_comments\<close> has resolved the round by a correct
  submission, the bot no longer waits for an answer; the comments after the winning one in
  the same call change nothing, and every later call returns the state as it is, without a
  reply: later submissions are neither classified nor stored, so the winner, the status, the
  stored answers and the statistics stay as they were.
\<close>

theorem resolved_round_inert:
  assumes "monitor_comments L me cs st = (st', Some reply)"
  shows "\<not> waiting_for_answer st'
         \<and> monitor_comments L me (cs @ later) st = (st', Some reply)
         \<and> monitor_comments L me later' st' = (st', None)"
proof -
  from assms have open_round: "current_question st \<noteq> None \<and> waiting_for_answer st"
    and loop: "monitor_loop L me cs st = (st', Some reply)"
    by (auto simp: monitor_comments_def split: if_splits)
  from loop have "\<not> waiting_for_answer st'"
    by (rule monitor_loop_waiting)
  moreover from loop have "monitor_loop L me (cs @ later) st = (st', Some reply)"
    by (rule monitor_loop_append)
  ultimately show ?thesis
    using open_round by (simp add: monitor_comments_def)
qed

theorem resolved_round_inert_witness:
  "\<exists>st' reply.
     monitor_comments plain_lib ''quizbot'' [comment_parma, comment_paris] paris_round
       = (st', Some reply)
     \<and> \<not> waiting_for_answer st'
     \<and> monitor_comments plain_lib ''quizbot'' ([comment_parma, comment_paris] @ [comment_late])
         paris_round = (st', Some reply)
     \<and> monitor_comments plain_lib ''quizbot'' [comment_parma, comment_paris, comment_late] st'
       = (st', None)"
proof -
  have "snd (monitor_comments plain_lib ''quizbot'' [comment_parma, comment_paris] paris_round)
          \<noteq> None"
    by code_simp
  then obtain st' reply where
    won: "monitor_comments plain_lib ''quizbot'' [comment_parma, comment_paris] paris_round
            = (st', Some reply)"
    by (cases "monitor_comments plain_lib ''quizbot'' [comment_parma, comment_paris] paris_round")
       auto
  from resolved_round_inert [OF won, of "[comment_late]" "[comment_parma, comment_paris, comment_late]"] won
  show ?thesis by blast
qed

text \<open>
  C2. The report of \<open>get_top_matching_answers\<close> is the claim's ranking but for one point
  (lemma \<open>top_matches_ranking\<close>): the stored answers are scored, sorted by confidence from
  the highest, equal ones in the order of arrival, those above 0.3 are kept and the first
  \<open>limit\<close> of them returned. The winning answer is not left out, though the comment in the
  source says that it is: in the round of the example, which bob wins after alice's near
  miss, the report lists bob's winning answer first and alice's after it.
\<close>

theorem top_matches_include_winner:
  "snd (monitor_comments plain_lib ''quizbot'' [comment_parma, comment_paris] paris_round) =
     Some \<lparr>cel_comment = ''t2'', cel_winner = ''bob'', cel_answer = ''paris'',
            cel_correct_answer = ''Paris'', cel_match_type = ''exact'',
            cel_confidence = 1, cel_points = 17, cel_response_time = 5, cel_streak = 1,
            cel_top_matches =
              [\<lparr>sc_username = ''bob'', sc_answer = ''paris'', sc_confidence = 1,
                 sc_match_type = ''exact'', sc_is_correct = True\<rparr>,
               \<lparr>sc_username = ''alice'', sc_answer = ''Parma'', sc_confidence = 3 / 5,
                 sc_match_type = ''no_match'', sc_is_correct = False\<rparr>]\<rparr>"
  by code_simp

subsection \<open>Normal forms\<close>

text \<open>
  C5, as stated, fails: the normal form of \<open>dc\<close> is \<open>washington dc\<close>, and normalizing that
  again expands its last word once more.
\<close>

theorem normalize_twice_differs:
  "normalize_text plain_lib ''dc'' = ''washington dc''
   \<and> normalize_text plain_lib (normalize_text plain_lib ''dc'') = ''washington washington dc''"
  by code_simp

text \<open>
  C5, amended. For every text whose normal form does not contain the word dc and is left
  as it is by the lower case, by \<open>html.unescape\<close>, by the NFKD form and by the removal of
  the combining characters, normalizing the normal form again returns it unchanged.
\<close>

theorem normalize_idempotent:
  assumes "''dc'' \<notin> set (split (normalize_text L x))"
    and "lower (normalize_text L x) = normalize_text L x"
    and "html_unescape L (normalize_text L x) = normalize_text L x"
    and "nfkd L (normalize_text L x) = normalize_text L x"
    and "\<forall>c \<in> set (normalize_text L x). \<not> combining L c"
  shows "normalize_text L (normalize_text L x) = normalize_text L x"
  using assms by (rule normalize_idem_fixed)

theorem normalize_idempotent_witness:
  "normalize_text plain_lib ''  The U.S.A. + Henry VIII (jr.)  '' = ''the u.s.a. plus henry 8 junior''
   \<and> normalize_text plain_lib (normalize_text plain_lib ''  The U.S.A. + Henry VIII (jr.)  '')
       = normalize_text plain_lib ''  The U.S.A. + Henry VIII (jr.)  ''"
proof -
  let ?x = "''  The U.S.A. + Henry VIII (jr.)  ''"
  have nf: "normalize_text plain_lib ?x = ''the u.s.a. plus henry 8 junior''"
    by code_simp
  have h1: "''dc'' \<notin> set (split (normalize_text plain_lib ?x))"
    unfolding nf by code_simp
  have h2: "lower (normalize_text plain_lib ?x) = normalize_text plain_lib ?x"
    unfolding nf by code_simp
  have h3: "html_unescape plain_lib (normalize_text plain_lib ?x) = normalize_text plain_lib ?x"
    by (simp add: plain_lib_def)
  have h4: "nfkd plain_lib (normalize_text plain_lib ?x) = normalize_text plain_lib ?x"
    by (simp add: plain_lib_def)
  have h5: "\<forall>c \<in> set (normalize_text plain_lib ?x). \<not> combining plain_lib c"
    by (simp add: plain_lib_def)
  from normalize_idempotent [OF h1 h2 h3 h4 h5] nf show ?thesis
    by simp
qed

end
